theory Spec2Isabelle
  imports Main
begin

section \<open>JavaScript values\<close>

text \<open>
  The payload handed over by the \<open>consul\<close> client is an arbitrary JavaScript value.
  Numbers are never computed with, so an integer stands for them.  An object is the list of
  its own properties; arrays, functions and symbols carry no further named own properties.
\<close>

datatype jsval =
    JUndefined
  | JNull
  | JBool bool
  | JNum int
  | JStr string
  | JArr "jsval list"
  | JObj "(string \<times> jsval) list"
  | JFun string
  | JSymbol

text \<open>lodash: \<open>_.isArray\<close>, \<open>_.isObject\<close>, \<open>_.has(object, key)\<close>, and the property read \<open>object.key\<close>.\<close>

fun isArray :: "jsval \<Rightarrow> bool" where
  "isArray (JArr xs) = True"
| "isArray v = False"

fun isObject :: "jsval \<Rightarrow> bool" where
  "isObject (JObj fs) = True"
| "isObject (JArr xs) = True"
| "isObject (JFun f) = True"
| "isObject v = False"

fun has :: "jsval \<Rightarrow> string \<Rightarrow> bool" where
  "has (JObj fs) k = (map_of fs k \<noteq> None)"
| "has v k = False"

fun get_prop :: "jsval \<Rightarrow> string \<Rightarrow> jsval" where
  "get_prop (JObj fs) k = (case map_of fs k of Some v \<Rightarrow> v | None \<Rightarrow> JUndefined)"
| "get_prop v k = JUndefined"

text \<open>The assignment \<open>object[key] = v\<close> on the list of own properties.\<close>

fun set_prop :: "(string \<times> jsval) list \<Rightarrow> string \<Rightarrow> jsval \<Rightarrow> (string \<times> jsval) list" where
  "set_prop [] k v = [(k, v)]"
| "set_prop (p # ps) k v = (if fst p = k then (k, v) # ps else p # set_prop ps k v)"

section \<open>Errors (src/Error/index.js)\<close>

datatype error_class =
    WatchError
  | WatchTimeoutError
  | AlreadyInitializedError
  | InvalidDataError
  | TypeError

text \<open>The \<open>extra\<close> object given to an error's constructor.\<close>

datatype extra =
    NoExtra
  | ExRecords jsval
  | ExRecord jsval
  | ExKeyValue jsval jsval
  | ExErr string

datatype kv_error = KvError (cls: error_class) (message: string) (extra: extra)

section \<open>Record validator (src/ConsulResponseValidator.js)\<close>

definition invalid_record :: "jsval \<Rightarrow> bool" where
  "invalid_record record \<longleftrightarrow>
     \<not> isObject record \<or> \<not> has record ''Key'' \<or> \<not> has record ''Value'' \<or>
     \<not> has record ''CreateIndex'' \<or> \<not> has record ''Flags'' \<or> \<not> has record ''LockIndex'' \<or>
     \<not> has record ''ModifyIndex''"

text \<open>One round of the \<open>forEach\<close> callback; the pair is \<open>(validRecords, errors)\<close>.\<close>

definition filter_step :: "jsval \<Rightarrow> jsval list \<times> kv_error list \<Rightarrow> jsval list \<times> kv_error list" where
  "filter_step record data =
     (if invalid_record record
      then (fst data,
            snd data @ [KvError InvalidDataError
               ''Invalid format of record data received from consul KV'' (ExRecord record)])
      else (fst data @ [record], snd data))"

definition filterValidKvRecords :: "jsval \<Rightarrow> jsval list \<times> kv_error list" where
  "filterValidKvRecords records =
     (case records of
        JArr rs \<Rightarrow> (if rs = [] then ([], []) else fold filter_step rs ([], []))
      | _ \<Rightarrow> ([], [KvError InvalidDataError
                 ''Invalid format of data received from consul KV'' (ExRecords records)]))"

text \<open>
  The validity notion of the specification: a structured record that contains all six
  required fields.
\<close>

definition required_fields :: "string list" where
  "required_fields = [''Key'', ''Value'', ''CreateIndex'', ''Flags'', ''LockIndex'', ''ModifyIndex'']"

fun is_structured_record :: "jsval \<Rightarrow> bool" where
  "is_structured_record (JObj fs) = True"
| "is_structured_record v = False"

definition spec_valid_record :: "jsval \<Rightarrow> bool" where
  "spec_valid_record r \<longleftrightarrow> is_structured_record r \<and> list_all (has r) required_fields"

definition record_diagnostic :: "jsval \<Rightarrow> kv_error" where
  "record_diagnostic r =
     KvError InvalidDataError ''Invalid format of record data received from consul KV'' (ExRecord r)"

section \<open>Keyed snapshot (src/ConsulKvData.js)\<close>

record kv_body =
  metaData :: jsval
  "value" :: jsval

text \<open>
  A JavaScript \<open>Map\<close>: entries in insertion order; \<open>set\<close> on a present key replaces the
  value in place and keeps the key.  \<open>Map\<close> compares keys with SameValueZero: undefined,
  null, booleans, numbers and strings by value (\<open>by_value\<close>), everything else by identity.  The payload
  is what the \<open>consul\<close> client parsed from JSON, so two arrays or objects in it are two
  different objects, however alike: such a key is the same key as no other.
\<close>

fun by_value :: "jsval \<Rightarrow> bool" where
  "by_value (JArr xs) = False"
| "by_value (JObj fs) = False"
| "by_value (JFun f) = False"
| "by_value JSymbol = False"
| "by_value v = True"

definition same_key :: "jsval \<Rightarrow> jsval \<Rightarrow> bool" where
  "same_key a b \<longleftrightarrow> by_value a \<and> a = b"

type_synonym kv_map = "(jsval \<times> kv_body) list"

fun map_set :: "kv_map \<Rightarrow> jsval \<Rightarrow> kv_body \<Rightarrow> kv_map" where
  "map_set [] k b = [(k, b)]"
| "map_set (e # es) k b = (if same_key (fst e) k then (fst e, b) # es else e # map_set es k b)"

fun map_get :: "kv_map \<Rightarrow> jsval \<Rightarrow> kv_body option" where
  "map_get [] k = None"
| "map_get (e # es) k = (if same_key (fst e) k then Some (snd e) else map_get es k)"

definition new_Map :: "(jsval \<times> kv_body) list \<Rightarrow> kv_map" where
  "new_Map records = fold (\<lambda>e m. map_set m (fst e) (snd e)) records []"

datatype ConsulKvData = ConsulKvData (kvMap: kv_map)

definition new_ConsulKvData :: "(jsval \<times> kv_body) list \<Rightarrow> ConsulKvData" where
  "new_ConsulKvData records = ConsulKvData (new_Map records)"

text \<open>The three lookups take a string, as their documentation says (\<open>@param {String} key\<close>).\<close>

definition hasKey :: "ConsulKvData \<Rightarrow> string \<Rightarrow> bool" where
  "hasKey d key \<longleftrightarrow> map_get (kvMap d) (JStr key) \<noteq> None"

definition getKeys :: "ConsulKvData \<Rightarrow> jsval list" where
  "getKeys d = map fst (kvMap d)"

definition getValue :: "ConsulKvData \<Rightarrow> string \<Rightarrow> jsval" where
  "getValue d key =
     (case map_get (kvMap d) (JStr key) of None \<Rightarrow> JUndefined | Some b \<Rightarrow> value b)"

definition getMetadata :: "ConsulKvData \<Rightarrow> string \<Rightarrow> jsval" where
  "getMetadata d key =
     (case map_get (kvMap d) (JStr key) of None \<Rightarrow> JUndefined | Some b \<Rightarrow> metaData b)"

section \<open>Snapshot builder (Factory: buildConsulKvData)\<close>

text \<open>
  \<open>JSON.parse\<close> belongs to the language, not to the repository: it is the parameter
  \<open>parse\<close>, with \<open>None\<close> for a thrown \<open>SyntaxError\<close>.  The state of the \<open>forEach\<close>
  is \<open>(records, errors)\<close>; \<open>errors\<close> starts as the validator's array.
\<close>

definition build_step ::
  "(jsval \<Rightarrow> jsval option) \<Rightarrow> bool \<Rightarrow> jsval \<Rightarrow>
   (jsval \<times> kv_body) list \<times> kv_error list \<Rightarrow> (jsval \<times> kv_body) list \<times> kv_error list" where
  "build_step parse json record st =
     (if json then
        (case parse (get_prop record ''Value'') of
           None \<Rightarrow> (fst st, snd st @ [KvError InvalidDataError
              ''Invalid JSON of Value field of KV is received from consul, record will be skipped''
              (ExKeyValue (get_prop record ''Key'') (get_prop record ''Value''))])
         | Some v \<Rightarrow> (fst st @ [(get_prop record ''Key'', \<lparr>metaData = record, value = v\<rparr>)], snd st))
      else (fst st @ [(get_prop record ''Key'', \<lparr>metaData = record, value = get_prop record ''Value''\<rparr>)],
            snd st))"

definition buildConsulKvData ::
  "(jsval \<Rightarrow> jsval option) \<Rightarrow> jsval \<Rightarrow> bool \<Rightarrow> ConsulKvData \<times> kv_error list" where
  "buildConsulKvData parse data json =
     (if data = JUndefined then (new_ConsulKvData [], [])
      else (let (validRecords, errors) = filterValidKvRecords data;
                (records, errors') = fold (build_step parse json) validRecords ([], errors)
            in (new_ConsulKvData records, errors')))"

text \<open>
  Names for what the builder does with one valid record: whether its value decodes, the
  diagnostic of a failed decode, whether the record is stored (always without \<open>json\<close>),
  and the map entry it is stored as.
\<close>

definition decodes :: "(jsval \<Rightarrow> jsval option) \<Rightarrow> jsval \<Rightarrow> bool" where
  "decodes parse r \<longleftrightarrow> parse (get_prop r ''Value'') \<noteq> None"

definition decode_diagnostic :: "jsval \<Rightarrow> kv_error" where
  "decode_diagnostic r =
     KvError InvalidDataError
       ''Invalid JSON of Value field of KV is received from consul, record will be skipped''
       (ExKeyValue (get_prop r ''Key'') (get_prop r ''Value''))"

definition stored :: "(jsval \<Rightarrow> jsval option) \<Rightarrow> bool \<Rightarrow> jsval \<Rightarrow> bool" where
  "stored parse json r \<longleftrightarrow> (if json then decodes parse r else True)"

definition entry :: "(jsval \<Rightarrow> jsval option) \<Rightarrow> bool \<Rightarrow> jsval \<Rightarrow> jsval \<times> kv_body" where
  "entry parse json r =
     (get_prop r ''Key'',
      \<lparr>metaData = r,
       value = (if json then (case parse (get_prop r ''Value'') of Some v \<Rightarrow> v | None \<Rightarrow> JUndefined)
                else get_prop r ''Value'')\<rparr>)"

text \<open>
  Sample inputs.  \<open>json_parse_sample\<close> is \<open>JSON.parse\<close> on the three texts used below:
  \<open>1\<close> and \<open>2\<close> are numbers, \<open>someValue\<close> is not JSON.
\<close>

fun json_parse_sample :: "jsval \<Rightarrow> jsval option" where
  "json_parse_sample (JStr s) =
     (if s = ''1'' then Some (JNum 1) else if s = ''2'' then Some (JNum 2) else None)"
| "json_parse_sample v = None"

definition kv_record :: "string \<Rightarrow> string \<Rightarrow> jsval" where
  "kv_record k v =
     JObj [(''Key'', JStr k), (''Value'', JStr v), (''CreateIndex'', JNum 351643),
           (''Flags'', JNum 0), (''LockIndex'', JNum 0), (''ModifyIndex'', JNum 906432)]"

definition dup_batch :: jsval where
  "dup_batch = JArr [kv_record ''key1'' ''1'', kv_record ''key1'' ''2'']"


definition array_key_batch :: jsval where
  "array_key_batch =
     JArr [JObj [(''Key'', JArr [JStr ''a'']), (''Value'', JStr ''1''), (''CreateIndex'', JNum 1),
                 (''Flags'', JNum 0), (''LockIndex'', JNum 0), (''ModifyIndex'', JNum 1)],
           JObj [(''Key'', JArr [JStr ''a'']), (''Value'', JStr ''2''), (''CreateIndex'', JNum 2),
                 (''Flags'', JNum 0), (''LockIndex'', JNum 0), (''ModifyIndex'', JNum 2)]]"

definition mixed_batch :: jsval where
  "mixed_batch = JArr [kv_record ''key1'' ''1'', JNum 7, kv_record ''key2'' ''someValue'']"


definition decode_failures :: "(jsval \<Rightarrow> jsval option) \<Rightarrow> jsval \<Rightarrow> jsval list" where
  "decode_failures parse data =
     filter (\<lambda>r. \<not> decodes parse r) (fst (filterValidKvRecords data))"

text \<open>No two keys of the list are the same key for a \<open>Map\<close>.\<close>

fun distinct_keys :: "jsval list \<Rightarrow> bool" where
  "distinct_keys [] = True"
| "distinct_keys (k # ks) = (\<not> list_ex (same_key k) ks \<and> distinct_keys ks)"


section \<open>The monitor and the event loop it runs on (ConsulKvMonitor)\<close>

subsection \<open>State\<close>

text \<open>
  A watcher is the object returned by \<open>consul.watch\<close>: an event emitter with the listeners
  registered on its three events, the flag set by its \<open>end()\<close> method, and the time of its
  last successful response (\<open>updateTime()\<close>, undefined before the first one).  A watcher is
  referred to by its position in the list of all watchers created so far.
\<close>

type_synonym wid = nat
type_synonym tid = nat

text \<open>
  The functions registered as listeners.  \<open>firstChange\<close> and \<open>firstError\<close> are closures of
  one call of \<open>_registerWatcherAndWaitForInitialKvData\<close>: they capture the promise of that
  call (named by the watcher the call created) and its \<open>timerId\<close>.
\<close>

datatype listener =
    FirstChange wid tid
  | FirstError wid tid
  | OnWatcherChange
  | OnWatcherError
  | OnWatcherEnd

record watcher =
  change_ls :: "listener list"
  error_ls :: "listener list"
  end_ls :: "listener list"
  ended :: bool
  updateTime :: "int option"

datatype timer_task =
    InitialTimeout wid
  | FallbackTick "int option"
  | RetryStartService

datatype caller = ByUser | ByRetry

datatype notification = Changed ConsulKvData | Healthy | Unhealthy | Error kv_error

text \<open>
  Promise jobs: \<open>StartSettled\<close> is the reaction that \<open>start()\<close> attached with \<open>then\<close> to the
  promise of \<open>_registerWatcherAndWaitForInitialKvData\<close>; \<open>AwaitStart\<close> is the code that
  waits for the promise returned by \<open>start()\<close>.
\<close>

datatype job =
    StartSettled caller "kv_error + ConsulKvData"
  | AwaitStart caller "kv_error + ConsulKvData"

text \<open>
  The first nine fields are the monitor's own (\<open>this._json\<close>, \<open>this._timeoutMsec\<close>, ...,
  \<open>this._retryTimer\<close>).  The others are the environment it runs in: the watchers created
  by \<open>consul.watch\<close>, the timers set and not yet cleared (handle, delay, callback) with the
  next handle to give out, the start promises that are not settled with the caller of each
  \<open>start()\<close>, the promise jobs and the \<open>setImmediate\<close> callbacks that wait to run, the
  notifications emitted so far, and the results the application got from its calls of
  \<open>start()\<close>.
\<close>

record monitor =
  json_option :: bool
  timeoutMsec :: nat
  initialized :: bool
  isWatchHealthy :: bool
  watchKvChange :: "wid option"
  consulKvData :: ConsulKvData
  consulHeaders :: "(string \<times> jsval) list"
  fallbackToWatchHealthyInterval :: "tid option"
  retryTimer :: "tid option"
  watchers :: "watcher list"
  timers :: "(tid \<times> nat \<times> timer_task) list"
  next_timer :: tid
  pending :: "(wid \<times> caller) list"
  jobs :: "job list"
  immediates :: "kv_error list list"
  emitted :: "notification list"
  user_results :: "(kv_error + ConsulKvData) list"

definition DEFAULT_TIMEOUT_MSEC :: nat where "DEFAULT_TIMEOUT_MSEC = 5000"
definition HEALTH_FALLBACK_INTERVAL_MSEC :: nat where "HEALTH_FALLBACK_INTERVAL_MSEC = 1000"
definition DEFAULT_RETRY_START_SERVICE_TIMEOUT_MSEC :: nat where
  "DEFAULT_RETRY_START_SERVICE_TIMEOUT_MSEC = 1000"
definition X_CONSUL_HEADERS :: "string list" where
  "X_CONSUL_HEADERS = [''x-consul-index'', ''x-consul-knownleader'', ''x-consul-lastcontact'']"

text \<open>The monitor as its constructor leaves it, with nothing scheduled.\<close>

definition new_monitor :: "bool \<Rightarrow> nat \<Rightarrow> monitor" where
  "new_monitor js msec =
     \<lparr>json_option = js, timeoutMsec = msec, initialized = False, isWatchHealthy = False,
      watchKvChange = None, consulKvData = new_ConsulKvData [], consulHeaders = [],
      fallbackToWatchHealthyInterval = None, retryTimer = None,
      watchers = [], timers = [], next_timer = 0, pending = [], jobs = [], immediates = [],
      emitted = [], user_results = []\<rparr>"

subsection \<open>Event emitters, timers and promises\<close>

text \<open>
  The notifications of the monitor are recorded in the order of emission.  The listeners of
  the application are taken to return normally and not to call the monitor while they run.
\<close>

definition emit :: "notification \<Rightarrow> monitor \<Rightarrow> monitor" where
  "emit n s = s\<lparr>emitted := emitted s @ [n]\<rparr>"

text \<open>\<open>removeListener\<close> removes the most recently added instance.\<close>

definition removeListener :: "listener \<Rightarrow> listener list \<Rightarrow> listener list" where
  "removeListener l ls = rev (remove1 l (rev ls))"

definition upd_watcher :: "wid \<Rightarrow> (watcher \<Rightarrow> watcher) \<Rightarrow> monitor \<Rightarrow> monitor" where
  "upd_watcher w f s = s\<lparr>watchers := (watchers s)[w := f (watchers s ! w)]\<rparr>"

definition setTimer :: "nat \<Rightarrow> timer_task \<Rightarrow> monitor \<Rightarrow> monitor" where
  "setTimer msec task s =
     s\<lparr>timers := timers s @ [(next_timer s, msec, task)], next_timer := Suc (next_timer s)\<rparr>"

definition clearTimer :: "tid option \<Rightarrow> monitor \<Rightarrow> monitor" where
  "clearTimer h s =
     (case h of None \<Rightarrow> s | Some t \<Rightarrow> s\<lparr>timers := filter (\<lambda>x. fst x \<noteq> t) (timers s)\<rparr>)"

definition setImmediate :: "kv_error list \<Rightarrow> monitor \<Rightarrow> monitor" where
  "setImmediate es s = s\<lparr>immediates := immediates s @ [es]\<rparr>"

text \<open>Settling the promise of the start attempt \<open>w\<close>; a settled promise ignores it.\<close>

definition settle :: "wid \<Rightarrow> kv_error + ConsulKvData \<Rightarrow> monitor \<Rightarrow> monitor" where
  "settle w r s =
     (case map_of (pending s) w of
        None \<Rightarrow> s
      | Some c \<Rightarrow> s\<lparr>pending := filter (\<lambda>x. fst x \<noteq> w) (pending s),
                    jobs := jobs s @ [StartSettled c r]\<rparr>)"

subsection \<open>Methods of the monitor\<close>

definition isWatcherRegistered :: "monitor \<Rightarrow> bool" where
  "isWatcherRegistered s \<longleftrightarrow> watchKvChange s \<noteq> None"

definition unsetFallbackToWatchHealthy :: "monitor \<Rightarrow> monitor" where
  "unsetFallbackToWatchHealthy s =
     (clearTimer (fallbackToWatchHealthyInterval s) s)\<lparr>fallbackToWatchHealthyInterval := None\<rparr>"

text \<open>
  \<open>None\<close> is the \<open>TypeError\<close> of reading \<open>updateTime\<close> from \<open>this._watchKvChange\<close> when that
  is \<open>null\<close>; here and below an exception that nothing catches ends the run.
\<close>

definition setFallbackToWatchHealthy :: "monitor \<Rightarrow> monitor option" where
  "setFallbackToWatchHealthy s =
     (let s1 = (if fallbackToWatchHealthyInterval s \<noteq> None then unsetFallbackToWatchHealthy s else s)
      in case watchKvChange s1 of
           None \<Rightarrow> None
         | Some w \<Rightarrow>
             Some ((setTimer HEALTH_FALLBACK_INTERVAL_MSEC
                      (FallbackTick (updateTime (watchers s1 ! w))) s1)
                   \<lparr>fallbackToWatchHealthyInterval := Some (next_timer s1)\<rparr>))"

text \<open>The body of the interval callback set by \<open>_setFallbackToWatchHealthy\<close>.\<close>

definition fallback_tick :: "int option \<Rightarrow> monitor \<Rightarrow> monitor option" where
  "fallback_tick initialUpdateTime s =
     (if isWatchHealthy s then Some (unsetFallbackToWatchHealthy s)
      else case watchKvChange s of
             None \<Rightarrow> None
           | Some w \<Rightarrow>
               (if initialUpdateTime \<noteq> updateTime (watchers s ! w)
                then Some (emit Healthy ((unsetFallbackToWatchHealthy s)\<lparr>isWatchHealthy := True\<rparr>))
                else Some s))"

definition emitFactoryErrors :: "kv_error list \<Rightarrow> monitor \<Rightarrow> monitor" where
  "emitFactoryErrors errors s = setImmediate errors s"

text \<open>
  The watcher always hands over the HTTP response, an object with a \<open>headers\<close> object.
\<close>

definition copyHeaders :: "jsval \<Rightarrow> monitor \<Rightarrow> monitor" where
  "copyHeaders response s =
     s\<lparr>consulHeaders :=
         fold (\<lambda>headerName hs. set_prop hs headerName (get_prop (get_prop response ''headers'') headerName))
           X_CONSUL_HEADERS (consulHeaders s)\<rparr>"

definition new_watcher :: watcher where
  "new_watcher = \<lparr>change_ls = [], error_ls = [], end_ls = [], ended = False, updateTime = None\<rparr>"

text \<open>
  The synchronous part of \<open>_registerWatcherAndWaitForInitialKvData\<close>, for the caller \<open>c\<close>
  of \<open>start()\<close>: the watcher is created and stored, the timer is set, the two one-shot
  listeners are registered on \<open>this._watchKvChange\<close>, and the promise is pending.
\<close>

definition registerWatcherAndWaitForInitialKvData :: "caller \<Rightarrow> monitor \<Rightarrow> monitor" where
  "registerWatcherAndWaitForInitialKvData c s =
     (let w = length (watchers s);
          s1 = s\<lparr>watchers := watchers s @ [new_watcher], watchKvChange := Some w\<rparr>;
          timerId = next_timer s1;
          s2 = setTimer (timeoutMsec s1) (InitialTimeout w) s1;
          s3 = upd_watcher w (\<lambda>x. x\<lparr>change_ls := change_ls x @ [FirstChange w timerId]\<rparr>) s2;
          s4 = upd_watcher w (\<lambda>x. x\<lparr>error_ls := error_ls x @ [FirstError w timerId]\<rparr>) s3
      in s4\<lparr>pending := pending s4 @ [(w, c)]\<rparr>)"

definition start :: "caller \<Rightarrow> monitor \<Rightarrow> monitor" where
  "start c s =
     (if isWatcherRegistered s
      then s\<lparr>jobs := jobs s @
             [AwaitStart c (Inl (KvError AlreadyInitializedError ''Service is already started'' NoExtra))]\<rparr>
      else registerWatcherAndWaitForInitialKvData c s)"

text \<open>\<open>_retryStartService\<close> up to its \<open>await\<close>; the rest of it is the job \<open>AwaitStart ByRetry\<close>.\<close>

definition retryStartService :: "monitor \<Rightarrow> monitor" where
  "retryStartService s = start ByRetry s"

definition onWatcherEnd :: "monitor \<Rightarrow> monitor" where
  "onWatcherEnd s =
     (let s1 = (unsetFallbackToWatchHealthy s)\<lparr>initialized := False\<rparr>;
          s2 = (if isWatchHealthy s1 then emit Unhealthy (s1\<lparr>isWatchHealthy := False\<rparr>) else s1)
      in retryStartService (s2\<lparr>watchKvChange := None\<rparr>))"

text \<open>
  The \<open>end()\<close> method of a watcher, as the \<open>consul\<close> package has it: the first call marks
  the watcher as ended and emits \<open>end\<close> to the listeners registered at that moment; a later
  call does nothing.
\<close>

definition end_listener :: "listener \<Rightarrow> monitor \<Rightarrow> monitor" where
  "end_listener l s = (if l = OnWatcherEnd then onWatcherEnd s else s)"

definition watcher_end :: "wid \<Rightarrow> monitor \<Rightarrow> monitor" where
  "watcher_end v s =
     (if ended (watchers s ! v) then s
      else fold end_listener (end_ls (watchers s ! v)) (upd_watcher v (\<lambda>x. x\<lparr>ended := True\<rparr>) s))"

definition stop :: "monitor \<Rightarrow> monitor" where
  "stop s =
     (let s1 = (if retryTimer s \<noteq> None then (clearTimer (retryTimer s) s)\<lparr>retryTimer := None\<rparr> else s)
      in case watchKvChange s1 of
           None \<Rightarrow> s1
         | Some w \<Rightarrow>
             (let s2 = upd_watcher w (\<lambda>x. x\<lparr>end_ls := removeListener OnWatcherEnd (end_ls x)\<rparr>) s1;
                  s3 = (watcher_end w s2)\<lparr>watchKvChange := None\<rparr>;
                  s4 = unsetFallbackToWatchHealthy s3
              in s4\<lparr>initialized := False, isWatchHealthy := False\<rparr>))"

subsection \<open>The closures of one start attempt\<close>

text \<open>
  Each of the three reads \<open>this._watchKvChange\<close> when it runs, not the watcher it was
  created with; on \<open>null\<close> its first statement throws a \<open>TypeError\<close> (\<open>None\<close>).
\<close>

definition firstChange ::
  "(jsval \<Rightarrow> jsval option) \<Rightarrow> wid \<Rightarrow> tid \<Rightarrow> jsval \<Rightarrow> jsval \<Rightarrow> monitor \<Rightarrow> monitor option" where
  "firstChange parse w timerId data response s =
     (case watchKvChange s of
        None \<Rightarrow> None
      | Some cur \<Rightarrow>
          (let s1 = upd_watcher cur
                      (\<lambda>x. x\<lparr>error_ls := removeListener (FirstError w timerId) (error_ls x)\<rparr>) s;
               s2 = clearTimer (Some timerId) s1;
               built = buildConsulKvData parse data (json_option s2);
               s3 = copyHeaders response s2;
               s4 = (if snd built \<noteq> [] then emitFactoryErrors (snd built) s3 else s3)
           in Some (settle w (Inr (fst built)) s4)))"

definition firstError :: "wid \<Rightarrow> tid \<Rightarrow> string \<Rightarrow> monitor \<Rightarrow> monitor option" where
  "firstError w timerId err s =
     (case watchKvChange s of
        None \<Rightarrow> None
      | Some cur \<Rightarrow>
          (let s1 = upd_watcher cur
                      (\<lambda>x. x\<lparr>change_ls := removeListener (FirstChange w timerId) (change_ls x)\<rparr>) s;
               s2 = (watcher_end cur s1)\<lparr>watchKvChange := None\<rparr>;
               s3 = clearTimer (Some timerId) s2
           in Some (settle w (Inl (KvError WatchError err (ExErr err))) s3)))"

definition initialTimeout :: "wid \<Rightarrow> tid \<Rightarrow> monitor \<Rightarrow> monitor option" where
  "initialTimeout w timerId s =
     (case watchKvChange s of
        None \<Rightarrow> None
      | Some cur \<Rightarrow>
          (let s1 = upd_watcher cur
                      (\<lambda>x. x\<lparr>error_ls := removeListener (FirstError w timerId) (error_ls x)\<rparr>) s;
               s2 = upd_watcher cur
                      (\<lambda>x. x\<lparr>change_ls := removeListener (FirstChange w timerId) (change_ls x)\<rparr>) s1;
               s3 = (watcher_end cur s2)\<lparr>watchKvChange := None\<rparr>
           in Some (settle w (Inl (KvError WatchTimeoutError
                      ''Initial consul watch request was timed out'' NoExtra)) s3)))"

subsection \<open>The handlers of a running session\<close>

definition onWatcherChange ::
  "(jsval \<Rightarrow> jsval option) \<Rightarrow> jsval \<Rightarrow> jsval \<Rightarrow> monitor \<Rightarrow> monitor" where
  "onWatcherChange parse data response s =
     (let isHealthyStateChanged = \<not> isWatchHealthy s;
          s1 = (if \<not> isWatchHealthy s then s\<lparr>isWatchHealthy := True\<rparr> else s);
          built = buildConsulKvData parse data (json_option s1);
          s2 = copyHeaders response (s1\<lparr>consulKvData := fst built\<rparr>);
          s3 = (if isHealthyStateChanged then emit Healthy s2 else s2);
          s4 = emit (Changed (fst built)) s3
      in if snd built \<noteq> [] then emitFactoryErrors (snd built) s4 else s4)"

definition onWatcherError :: "string \<Rightarrow> monitor \<Rightarrow> monitor option" where
  "onWatcherError err s =
     (let s1 = unsetFallbackToWatchHealthy s;
          s2 = (if isWatchHealthy s1 then emit Unhealthy (s1\<lparr>isWatchHealthy := False\<rparr>) else s1)
      in case setFallbackToWatchHealthy s2 of
           None \<Rightarrow> None
         | Some s3 \<Rightarrow> Some (emit (Error (KvError WatchError err (ExErr err))) s3))"

subsection \<open>Promise jobs\<close>

text \<open>
  \<open>StartSettled\<close>: a rejection passes through the \<open>then\<close> of \<open>start()\<close>; a fulfilment runs
  its callback, which attaches the three handlers to \<open>this._watchKvChange\<close> (a \<open>TypeError\<close>
  on \<open>null\<close> rejects the promise that \<open>start()\<close> returned).  \<open>AwaitStart\<close>: the user's
  result is recorded; \<open>_retryStartService\<close> goes on after its \<open>await\<close>.
\<close>

definition attachHandlers :: "wid \<Rightarrow> monitor \<Rightarrow> monitor" where
  "attachHandlers w s =
     upd_watcher w (\<lambda>x. x\<lparr>end_ls := end_ls x @ [OnWatcherEnd]\<rparr>)
       (upd_watcher w (\<lambda>x. x\<lparr>error_ls := error_ls x @ [OnWatcherError]\<rparr>)
         (upd_watcher w (\<lambda>x. x\<lparr>change_ls := change_ls x @ [OnWatcherChange]\<rparr>) s))"

definition typeError :: kv_error where
  "typeError = KvError TypeError ''Cannot read property of null'' NoExtra"

fun run_job :: "job \<Rightarrow> monitor \<Rightarrow> monitor" where
  "run_job (StartSettled c (Inl err)) s = s\<lparr>jobs := jobs s @ [AwaitStart c (Inl err)]\<rparr>"
| "run_job (StartSettled c (Inr kvData)) s =
     (case watchKvChange s of
        None \<Rightarrow> s\<lparr>jobs := jobs s @ [AwaitStart c (Inl typeError)]\<rparr>
      | Some w \<Rightarrow>
          (let s1 = (attachHandlers w s)\<lparr>initialized := True, isWatchHealthy := True,
                                          consulKvData := kvData\<rparr>
           in s1\<lparr>jobs := jobs s1 @ [AwaitStart c (Inr kvData)]\<rparr>))"
| "run_job (AwaitStart ByUser r) s = s\<lparr>user_results := user_results s @ [r]\<rparr>"
| "run_job (AwaitStart ByRetry (Inr kvData)) s =
     emit (Changed kvData) (emit Healthy (s\<lparr>consulKvData := kvData\<rparr>))"
| "run_job (AwaitStart ByRetry (Inl err)) s =
     (let s1 = setImmediate [err] s
      in (setTimer DEFAULT_RETRY_START_SERVICE_TIMEOUT_MSEC RetryStartService s1)
           \<lparr>retryTimer := Some (next_timer s1)\<rparr>)"

text \<open>
  The job queue is emptied after every callback: the jobs found in it run in order, then
  the jobs those have queued (an \<open>AwaitStart\<close> queues nothing).
\<close>

definition run_jobs :: "monitor \<Rightarrow> monitor" where
  "run_jobs s = fold run_job (jobs s) (s\<lparr>jobs := []\<rparr>)"

definition drain :: "monitor \<Rightarrow> monitor" where
  "drain s = run_jobs (run_jobs s)"

subsection \<open>Events\<close>

text \<open>
  What can happen between two turns of the event loop: the user calls \<open>start()\<close> or
  \<open>stop()\<close>; a watcher that has not ended gets a successful response (its update time
  is set, and a \<open>change\<close> is emitted when the index moved) or fails (it emits \<open>error\<close> and,
  when the failure is final, ends itself, as the \<open>consul\<close> package does on a response
  400); a timer fires; the oldest \<open>setImmediate\<close> callback runs.  A watcher that has
  ended emits nothing more, and a watcher ends only through its \<open>end()\<close> method, called by
  the monitor or by the watcher itself after the \<open>error\<close> of a final failure.  Time is not
  measured: any timer that is set may be the next to fire.
\<close>

datatype event =
    UserStart
  | UserStop
  | WatcherResponse wid int "(jsval \<times> jsval) option"
  | WatcherError wid string bool
  | TimerFires tid
  | Immediate

fun run_listeners ::
  "(listener \<Rightarrow> monitor \<Rightarrow> monitor option) \<Rightarrow> listener list \<Rightarrow> monitor \<Rightarrow> monitor option" where
  "run_listeners f [] s = Some s"
| "run_listeners f (l # ls) s =
     (case f l s of None \<Rightarrow> None | Some s' \<Rightarrow> run_listeners f ls s')"

text \<open>A listener registered with \<open>once\<close> is removed from its watcher before it runs.\<close>

fun change_listener ::
  "(jsval \<Rightarrow> jsval option) \<Rightarrow> wid \<Rightarrow> jsval \<Rightarrow> jsval \<Rightarrow> listener \<Rightarrow> monitor \<Rightarrow> monitor option" where
  "change_listener parse v data response (FirstChange w timerId) s =
     firstChange parse w timerId data response
       (upd_watcher v (\<lambda>x. x\<lparr>change_ls := remove1 (FirstChange w timerId) (change_ls x)\<rparr>) s)"
| "change_listener parse v data response OnWatcherChange s =
     Some (onWatcherChange parse data response s)"
| "change_listener parse v data response l s = Some s"

fun error_listener :: "wid \<Rightarrow> string \<Rightarrow> listener \<Rightarrow> monitor \<Rightarrow> monitor option" where
  "error_listener v err (FirstError w timerId) s =
     firstError w timerId err
       (upd_watcher v (\<lambda>x. x\<lparr>error_ls := remove1 (FirstError w timerId) (error_ls x)\<rparr>) s)"
| "error_listener v err OnWatcherError s = onWatcherError err s"
| "error_listener v err l s = Some s"

definition run_immediate :: "monitor \<Rightarrow> monitor" where
  "run_immediate s =
     (case immediates s of
        [] \<Rightarrow> s
      | errors # rest \<Rightarrow> fold (\<lambda>error. emit (Error error)) errors (s\<lparr>immediates := rest\<rparr>))"

definition timer_fires :: "tid \<Rightarrow> monitor \<Rightarrow> monitor option" where
  "timer_fires t s =
     (case map_of (timers s) t of
        None \<Rightarrow> Some s
      | Some (msec, InitialTimeout w) \<Rightarrow> initialTimeout w t (clearTimer (Some t) s)
      | Some (msec, RetryStartService) \<Rightarrow> Some (retryStartService (clearTimer (Some t) s))
      | Some (msec, FallbackTick initialUpdateTime) \<Rightarrow> fallback_tick initialUpdateTime s)"

fun enabled :: "event \<Rightarrow> monitor \<Rightarrow> bool" where
  "enabled UserStart s = True"
| "enabled UserStop s = True"
| "enabled (WatcherResponse v time chg) s = (v < length (watchers s) \<and> \<not> ended (watchers s ! v))"
| "enabled (WatcherError v err final) s = (v < length (watchers s) \<and> \<not> ended (watchers s ! v))"
| "enabled (TimerFires t) s = (map_of (timers s) t \<noteq> None)"
| "enabled Immediate s = (immediates s \<noteq> [])"

fun handle :: "(jsval \<Rightarrow> jsval option) \<Rightarrow> event \<Rightarrow> monitor \<Rightarrow> monitor option" where
  "handle parse UserStart s = Some (start ByUser s)"
| "handle parse UserStop s = Some (stop s)"
| "handle parse (WatcherResponse v time chg) s =
     (let s1 = upd_watcher v (\<lambda>x. x\<lparr>updateTime := Some time\<rparr>) s
      in case chg of
           None \<Rightarrow> Some s1
         | Some (data, response) \<Rightarrow>
             run_listeners (change_listener parse v data response) (change_ls (watchers s1 ! v)) s1)"
| "handle parse (WatcherError v err final) s =
     (case run_listeners (error_listener v err) (error_ls (watchers s ! v)) s of
        None \<Rightarrow> None
      | Some s1 \<Rightarrow> Some (if final then watcher_end v s1 else s1))"
| "handle parse (TimerFires t) s = timer_fires t s"
| "handle parse Immediate s = Some (run_immediate s)"

text \<open>One turn: the callback, then the promise jobs; \<open>None\<close> is an uncaught exception.\<close>

definition step :: "(jsval \<Rightarrow> jsval option) \<Rightarrow> event \<Rightarrow> monitor \<Rightarrow> monitor option" where
  "step parse e s = map_option drain (handle parse e s)"

fun run :: "(jsval \<Rightarrow> jsval option) \<Rightarrow> event list \<Rightarrow> monitor \<Rightarrow> monitor option" where
  "run parse [] s = Some s"
| "run parse (e # es) s =
     (if enabled e s then (case step parse e s of None \<Rightarrow> None | Some s' \<Rightarrow> run parse es s')
      else None)"

inductive reachable :: "(jsval \<Rightarrow> jsval option) \<Rightarrow> monitor \<Rightarrow> bool" for parse where
  init: "0 < msec \<Longrightarrow> reachable parse (new_monitor js msec)"
| step: "reachable parse s \<Longrightarrow> enabled e s \<Longrightarrow> step parse e s = Some s' \<Longrightarrow> reachable parse s'"


subsection \<open>Invariants\<close>

fun is_fallback :: "tid \<times> nat \<times> timer_task \<Rightarrow> bool" where
  "is_fallback (t, msec, FallbackTick b) = True"
| "is_fallback x = False"

text \<open>
  The timer handles are all different and older than the next one; the active fallback
  intervals are exactly the one the monitor holds, if it holds one.
\<close>

definition timers_ok :: "monitor \<Rightarrow> bool" where
  "timers_ok s \<longleftrightarrow>
     distinct (map fst (timers s)) \<and>
     list_all (\<lambda>x. fst x < next_timer s) (timers s) \<and>
     map fst (filter is_fallback (timers s)) =
       (case fallbackToWatchHealthyInterval s of None \<Rightarrow> [] | Some t \<Rightarrow> [t])"

text \<open>
  The watcher the monitor holds exists and has not ended, and either the monitor's \<open>end\<close>
  handler is attached to it, or it is still in its own start attempt: its \<open>firstError\<close> is
  registered and its promise is pending.
\<close>

fun is_first_error_of :: "wid \<Rightarrow> listener \<Rightarrow> bool" where
  "is_first_error_of w (FirstError w' t) = (w' = w)"
| "is_first_error_of w l = False"

definition first_error_on :: "wid \<Rightarrow> monitor \<Rightarrow> bool" where
  "first_error_on w s \<longleftrightarrow> list_ex (is_first_error_of w) (error_ls (watchers s ! w))"

definition attached :: "wid \<Rightarrow> monitor \<Rightarrow> bool" where
  "attached w s \<longleftrightarrow> OnWatcherEnd \<in> set (end_ls (watchers s ! w))"

definition session_ok :: "monitor \<Rightarrow> bool" where
  "session_ok s \<longleftrightarrow>
     (case watchKvChange s of
        None \<Rightarrow> True
      | Some w \<Rightarrow> w < length (watchers s) \<and> \<not> ended (watchers s ! w) \<and>
                  (attached w s \<or> first_error_on w s \<and> map_of (pending s) w \<noteq> None))"

definition init_ok :: "monitor \<Rightarrow> bool" where
  "init_ok s \<longleftrightarrow>
     (if initialized s then (case watchKvChange s of None \<Rightarrow> False | Some w \<Rightarrow> attached w s)
      else True)"

text \<open>
  The timer handles captured by the registered closures and the retry handle held by the
  monitor: each is an old handle and not the handle of an active fallback interval.
\<close>

fun listener_tids :: "listener \<Rightarrow> tid set" where
  "listener_tids (FirstChange w t) = {t}"
| "listener_tids (FirstError w t) = {t}"
| "listener_tids l = {}"

definition watcher_tids :: "watcher \<Rightarrow> tid set" where
  "watcher_tids x = (\<Union>l \<in> set (change_ls x) \<union> set (error_ls x). listener_tids l)"

definition closure_tids :: "monitor \<Rightarrow> tid set" where
  "closure_tids s = (\<Union>x \<in> set (watchers s). watcher_tids x) \<union> set_option (retryTimer s)"

definition tid_safe :: "tid \<Rightarrow> monitor \<Rightarrow> bool" where
  "tid_safe t s \<longleftrightarrow> t < next_timer s \<and> \<not> list_ex (\<lambda>x. fst x = t \<and> is_fallback x) (timers s)"

definition tids_ok :: "tid set \<Rightarrow> monitor \<Rightarrow> bool" where
  "tids_ok X s \<longleftrightarrow> (\<forall>t \<in> closure_tids s \<union> X. tid_safe t s)"

text \<open>The invariant of the timers; \<open>X\<close> holds the handles of closures that are being called.\<close>

definition timers_inv :: "tid set \<Rightarrow> monitor \<Rightarrow> bool" where
  "timers_inv X s \<longleftrightarrow> timers_ok s \<and> tids_ok X s"

text \<open>
  Weaker facts that also hold while a callback is running: the watcher the monitor holds
  exists and has not ended.
\<close>

definition cur_alive :: "monitor \<Rightarrow> bool" where
  "cur_alive s \<longleftrightarrow>
     (case watchKvChange s of
        None \<Rightarrow> True
      | Some w \<Rightarrow> w < length (watchers s) \<and> \<not> ended (watchers s ! w))"

definition session_inv :: "monitor \<Rightarrow> bool" where
  "session_inv s \<longleftrightarrow> session_ok s \<and> init_ok s"

fun is_fulfilled :: "job \<Rightarrow> bool" where
  "is_fulfilled (StartSettled c (Inr kvData)) = True"
| "is_fulfilled j = False"

text \<open>
  While a \<open>change\<close> is being delivered and while the jobs run, the session invariant may
  wait for a fulfilled start promise among the jobs \<open>js\<close> whose reaction will attach the
  handlers.
\<close>

definition mid_ok :: "job list \<Rightarrow> monitor \<Rightarrow> bool" where
  "mid_ok js s \<longleftrightarrow> init_ok s \<and> cur_alive s \<and> (session_ok s \<or> list_ex is_fulfilled js)"


subsection \<open>Growth of the timer table, and sample runs\<close>

text \<open>
  From \<open>s\<close> to \<open>s'\<close> timers were only removed, or added under new handles.
\<close>

definition timers_grow :: "monitor \<Rightarrow> monitor \<Rightarrow> bool" where
  "timers_grow s s' \<longleftrightarrow>
     next_timer s \<le> next_timer s' \<and>
     list_all (\<lambda>x. x \<in> set (timers s) \<or> next_timer s \<le> fst x) (timers s')"

definition sample_response :: jsval where
  "sample_response =
     JObj [(''headers'', JObj [(''x-consul-index'', JStr ''313984''),
                               (''x-consul-knownleader'', JStr ''true''),
                               (''x-consul-lastcontact'', JStr ''0'')])]"

text \<open>The state after the events \<open>es\<close>, from a fresh monitor with a deadline of 500 ms.\<close>

definition after :: "event list \<Rightarrow> monitor" where
  "after es =
     (case run json_parse_sample es (new_monitor False 500) of
        Some s \<Rightarrow> s
      | None \<Rightarrow> new_monitor False 500)"

text \<open>
  A start answered by a first change with one malformed record; then the queued diagnostic
  is emitted and the watcher reports an error.
\<close>

definition events_started :: "event list" where
  "events_started = [UserStart, WatcherResponse 0 10 (Some (mixed_batch, sample_response))]"

definition events_unhealthy :: "event list" where
  "events_unhealthy = events_started @ [Immediate, WatcherError 0 ''connect ECONNREFUSED'' False]"

text \<open>
  After the error: a successful response without a change; or a response with a change.
  After the start: the watcher fails for good and ends, the retry's deadline elapses.
\<close>

definition events_silent_update :: "event list" where
  "events_silent_update = events_unhealthy @ [WatcherResponse 0 11 None]"

definition events_recovered :: "event list" where
  "events_recovered = events_unhealthy @ [WatcherResponse 0 11 (Some (mixed_batch, sample_response))]"

definition events_retry_failed :: "event list" where
  "events_retry_failed = events_started @ [Immediate, WatcherError 0 ''Bad request'' True, TimerFires 2]"

text \<open>
  After the first retry failed and its timer was set, the application calls \<open>start()\<close>
  itself; that session is answered, then fails for good and ends, and the deadline of the
  retry this \<open>end\<close> started elapses as well.
\<close>

definition events_two_retries :: "event list" where
  "events_two_retries =
     events_retry_failed @
     [Immediate, UserStart, WatcherResponse 2 20 (Some (dup_batch, sample_response)),
      WatcherError 2 ''Bad request'' True, TimerFires 6]"


text \<open>
  The application stops the monitor while its first start is pending and starts it again;
  that session is answered.  Then the deadline of the first start elapses: its callback
  ends the running watcher, whose \<open>end\<close> handler begins a retry, and forgets the watcher of
  that retry.  The application calls \<open>start()\<close> once more, and the retry's watcher gets
  its first change.
\<close>

definition events_stale_start :: "event list" where
  "events_stale_start =
     [UserStart, UserStop, UserStart, WatcherResponse 1 10 (Some (dup_batch, sample_response)),
      TimerFires 0, UserStart, WatcherResponse 2 20 (Some (dup_batch, sample_response))]"

text \<open>
  In that state the watcher in use fails: the state after the first listener of its
  \<open>error\<close> event, the first-error callback of the last \<open>start()\<close>, has run.
\<close>

definition after_first_error :: monitor where
  "after_first_error =
     (case error_listener 3 ''connect ECONNREFUSED'' (FirstError 3 3) (after events_stale_start) of
        Some s \<Rightarrow> s
      | None \<Rightarrow> after events_stale_start)"

section \<open>Properties of the record validator\<close>

lemma invalid_record_iff: "invalid_record r \<longleftrightarrow> \<not> spec_valid_record r"
  by (cases r) (auto simp: invalid_record_def spec_valid_record_def required_fields_def)

lemma fold_filter_step:
  "fold filter_step rs (vs, es) =
     (vs @ filter spec_valid_record rs,
      es @ map record_diagnostic (filter (\<lambda>r. \<not> spec_valid_record r) rs))"
  by (induction rs arbitrary: vs es)
     (simp_all add: filter_step_def invalid_record_iff record_diagnostic_def)

lemma filterValid_JArr:
  "filterValidKvRecords (JArr rs) =
     (filter spec_valid_record rs, map record_diagnostic (filter (\<lambda>r. \<not> spec_valid_record r) rs))"
  by (simp add: filterValidKvRecords_def fold_filter_step)

text \<open>
  Claim C7.  A payload that is not an array gives no valid records and the single
  diagnostic of a malformed payload; the empty array gives nothing at all; for an array
  \<open>rs\<close> the valid records are exactly the elements that are structured records with the six
  fields, unchanged and in their order, the diagnostics are one per other element, carrying
  it, in order, so with \<open>M\<close> invalid elements among \<open>N\<close> there are \<open>M\<close> diagnostics and
  \<open>N - M\<close> valid records.
\<close>

theorem filterValidKvRecords_spec:
  "(\<not> isArray v \<longrightarrow> filterValidKvRecords v =
        ([], [KvError InvalidDataError ''Invalid format of data received from consul KV'' (ExRecords v)]))
   \<and> filterValidKvRecords (JArr []) = ([], [])
   \<and> fst (filterValidKvRecords (JArr rs)) = filter spec_valid_record rs
   \<and> snd (filterValidKvRecords (JArr rs)) =
        map record_diagnostic (filter (\<lambda>r. \<not> spec_valid_record r) rs)
   \<and> length (snd (filterValidKvRecords (JArr rs))) = length (filter (\<lambda>r. \<not> spec_valid_record r) rs)
   \<and> length (fst (filterValidKvRecords (JArr rs))) =
        length rs - length (filter (\<lambda>r. \<not> spec_valid_record r) rs)"
proof -
  have a: "\<not> isArray v \<longrightarrow> filterValidKvRecords v =
        ([], [KvError InvalidDataError ''Invalid format of data received from consul KV'' (ExRecords v)])"
    by (cases v) (simp_all add: filterValidKvRecords_def)
  have b: "length (filter spec_valid_record rs) = length rs - length (filter (\<lambda>r. \<not> spec_valid_record r) rs)"
    using sum_length_filter_compl [of spec_valid_record rs] by simp
  show ?thesis using a b by (simp add: filterValid_JArr)
qed

theorem filterValidKvRecords_spec_witness:
  "\<not> isArray (JStr ''string'')
   \<and> filterValidKvRecords (JStr ''string'') =
       ([], [KvError InvalidDataError ''Invalid format of data received from consul KV''
               (ExRecords (JStr ''string''))])
   \<and> fst (filterValidKvRecords mixed_batch) =
       [kv_record ''key1'' ''1'', kv_record ''key2'' ''someValue'']
   \<and> snd (filterValidKvRecords mixed_batch) = [record_diagnostic (JNum 7)]"
  using filterValidKvRecords_spec
    [of "JStr ''string''" "[kv_record ''key1'' ''1'', JNum 7, kv_record ''key2'' ''someValue'']"]
  by (simp add: mixed_batch_def spec_valid_record_def required_fields_def kv_record_def)

section \<open>Properties of the keyed snapshot and its builder\<close>

lemma same_key_prim: "by_value k \<Longrightarrow> same_key a k \<longleftrightarrow> a = k"
  by (auto simp: same_key_def)

lemma same_key_sym: "same_key a b \<longleftrightarrow> same_key b a"
  by (auto simp: same_key_def)

lemma map_get_map_set:
  "by_value k' \<Longrightarrow> map_get (map_set m k b) k' = (if k' = k then Some b else map_get m k')"
  by (induction m) (auto simp: same_key_prim same_key_def)

lemma set_map_set: "set (map_set m k b) \<subseteq> insert (k, b) (set m)"
  by (induction m) (auto simp: same_key_def)

lemma keys_map_set:
  "map fst (map_set m k b) =
     (if list_ex (\<lambda>x. same_key x k) (map fst m) then map fst m else map fst m @ [k])"
  by (induction m) (auto simp: list_ex_iff)

lemma fold_map_set_get:
  "by_value k \<Longrightarrow>
     map_get (fold (\<lambda>e m. map_set m (fst e) (snd e)) es m) k =
       (case map_of (rev es) k of Some b \<Rightarrow> Some b | None \<Rightarrow> map_get m k)"
  by (induction es arbitrary: m) (auto simp: map_get_map_set split: option.splits)

lemma fold_map_set_set:
  "set (fold (\<lambda>e m. map_set m (fst e) (snd e)) es m) \<subseteq> set m \<union> set es"
proof (induction es arbitrary: m)
  case Nil
  then show ?case by simp
next
  case (Cons e es)
  from Cons.IH [of "map_set m (fst e) (snd e)"] set_map_set [of m "fst e" "snd e"]
  show ?case by auto
qed

lemma fold_map_set_keys:
  "set (map fst (fold (\<lambda>e m. map_set m (fst e) (snd e)) es m)) = set (map fst m) \<union> set (map fst es)"
proof (induction es arbitrary: m)
  case Nil
  then show ?case by simp
next
  case (Cons e es)
  have "set (map fst (map_set m (fst e) (snd e))) = insert (fst e) (set (map fst m))"
  proof (cases "list_ex (\<lambda>x. same_key x (fst e)) (map fst m)")
    case True
    then have "fst e \<in> set (map fst m)"
      unfolding list_ex_iff same_key_def by blast
    with True show ?thesis by (simp add: keys_map_set insert_absorb)
  next
    case False
    then show ?thesis by (simp add: keys_map_set)
  qed
  with Cons.IH [of "map_set m (fst e) (snd e)"] show ?case by auto
qed

lemma length_map_set:
  "length (map_set m k b) = (if list_ex (\<lambda>x. same_key x k) (map fst m) then length m else Suc (length m))"
  using arg_cong [OF keys_map_set [of m k b], of length] by (simp split: if_splits)

lemma fold_map_set_length_le:
  "length (fold (\<lambda>e m. map_set m (fst e) (snd e)) es m) \<le> length m + length es"
proof (induction es arbitrary: m)
  case Nil
  then show ?case by simp
next
  case (Cons e es)
  from Cons.IH [of "map_set m (fst e) (snd e)"] show ?case
    by (simp add: length_map_set split: if_splits)
qed

lemma fold_map_set_length_eq:
  "length (fold (\<lambda>e m. map_set m (fst e) (snd e)) es m) = length m + length es \<longleftrightarrow>
     distinct_keys (map fst es) \<and> (\<forall>e \<in> set es. \<forall>x \<in> set m. \<not> same_key (fst x) (fst e))"
proof (induction es arbitrary: m)
  case Nil
  then show ?case by simp
next
  case (Cons e es)
  let ?m = "map_set m (fst e) (snd e)"
  show ?case
  proof (cases "list_ex (\<lambda>x. same_key x (fst e)) (map fst m)")
    case True
    then have "length ?m = length m" by (simp add: length_map_set)
    with fold_map_set_length_le [of es ?m]
    have "length (fold (\<lambda>e m. map_set m (fst e) (snd e)) (e # es) m) < length m + length (e # es)"
      by simp
    moreover from True have "\<not> (\<forall>x \<in> set m. \<not> same_key (fst x) (fst e))"
      by (auto simp: list_ex_iff)
    ultimately show ?thesis by auto
  next
    case False
    then have l: "length ?m = Suc (length m)" and k: "map fst ?m = map fst m @ [fst e]"
      by (simp_all add: length_map_set keys_map_set)
    have s: "(\<forall>x \<in> set ?m. \<not> same_key (fst x) a) \<longleftrightarrow>
             (\<forall>x \<in> set m. \<not> same_key (fst x) a) \<and> \<not> same_key (fst e) a" for a
    proof -
      have "(\<forall>x \<in> set ?m. \<not> same_key (fst x) a) \<longleftrightarrow> (\<forall>y \<in> set (map fst ?m). \<not> same_key y a)"
        by auto
      also have "\<dots> \<longleftrightarrow> (\<forall>x \<in> set m. \<not> same_key (fst x) a) \<and> \<not> same_key (fst e) a"
        unfolding k by auto
      finally show ?thesis .
    qed
    from False have f: "\<forall>x \<in> set m. \<not> same_key (fst x) (fst e)"
      by (auto simp: list_ex_iff)
    have "length (fold (\<lambda>e m. map_set m (fst e) (snd e)) (e # es) m) = length m + length (e # es) \<longleftrightarrow>
          length (fold (\<lambda>e m. map_set m (fst e) (snd e)) es ?m) = length ?m + length es"
      using l by simp
    also have "\<dots> \<longleftrightarrow> distinct_keys (map fst es) \<and>
                 (\<forall>e' \<in> set es. \<forall>x \<in> set ?m. \<not> same_key (fst x) (fst e'))"
      by (rule Cons.IH)
    also have "\<dots> \<longleftrightarrow> distinct_keys (map fst (e # es)) \<and>
                 (\<forall>e' \<in> set (e # es). \<forall>x \<in> set m. \<not> same_key (fst x) (fst e'))"
      using f unfolding s by (auto simp: list_ex_iff)
    finally show ?thesis .
  qed
qed

lemma new_Map_props:
  "by_value k \<Longrightarrow> map_get (new_Map es) k = map_of (rev es) k"
  "set (new_Map es) \<subseteq> set es"
  "set (map fst (new_Map es)) = set (map fst es)"
  "length (new_Map es) \<le> length es"
  "length (new_Map es) = length es \<longleftrightarrow> distinct_keys (map fst es)"
  using fold_map_set_get [of k es "[]"] fold_map_set_set [of es "[]"] fold_map_set_keys [of es "[]"]
    fold_map_set_length_le [of es "[]"] fold_map_set_length_eq [of es "[]"]
  by (simp_all add: new_Map_def split: option.splits)




lemma fold_build_step:
  "fold (build_step parse json) vs (rs, es) =
     (rs @ map (entry parse json) (filter (stored parse json) vs),
      es @ map decode_diagnostic (filter (\<lambda>r. \<not> stored parse json r) vs))"
  by (induction vs arbitrary: rs es)
     (auto simp: build_step_def stored_def decodes_def entry_def decode_diagnostic_def
           split: option.splits)

lemma build_JArr:
  "buildConsulKvData parse (JArr xs) json =
     (new_ConsulKvData (map (entry parse json)
        (filter (stored parse json) (fst (filterValidKvRecords (JArr xs))))),
      snd (filterValidKvRecords (JArr xs)) @
      map decode_diagnostic
        (filter (\<lambda>r. \<not> stored parse json r) (fst (filterValidKvRecords (JArr xs)))))"
  by (simp add: buildConsulKvData_def fold_build_step split: prod.splits)

lemma fst_entry: "fst (entry parse json r) = get_prop r ''Key''"
  by (simp add: entry_def)

lemma map_of_entries_Some:
  "map_of (rev (map (entry parse json) rs)) k = Some b \<Longrightarrow>
     \<exists>r \<in> set rs. b = snd (entry parse json r) \<and> get_prop r ''Key'' = k"
proof -
  assume "map_of (rev (map (entry parse json) rs)) k = Some b"
  then have "(k, b) \<in> set (map (entry parse json) rs)"
    by (auto dest: map_of_SomeD)
  then obtain r where "r \<in> set rs" "entry parse json r = (k, b)" by auto
  then show ?thesis by (auto simp: entry_def intro!: bexI [of _ r])
qed



lemma lookup_entries:
  "map_get (kvMap (new_ConsulKvData (map (entry parse json) rs))) (JStr k) =
     map_of (rev (map (entry parse json) rs)) (JStr k)"
  by (simp add: new_ConsulKvData_def new_Map_props(1))

lemma getKeys_entries:
  "getKeys (new_ConsulKvData (map (entry parse json) rs)) =
     map fst (new_Map (map (entry parse json) rs))"
  "set (getKeys (new_ConsulKvData (map (entry parse json) rs))) = (\<lambda>r. get_prop r ''Key'') ` set rs"
  "length (getKeys (new_ConsulKvData (map (entry parse json) rs))) \<le> length rs"
  "length (getKeys (new_ConsulKvData (map (entry parse json) rs))) = length rs \<longleftrightarrow>
     distinct_keys (map (\<lambda>r. get_prop r ''Key'') rs)"
proof -
  have m: "map fst (map (entry parse json) rs) = map (\<lambda>r. get_prop r ''Key'') rs"
    by (simp add: fst_entry)
  show "getKeys (new_ConsulKvData (map (entry parse json) rs)) =
     map fst (new_Map (map (entry parse json) rs))"
    by (simp add: getKeys_def new_ConsulKvData_def)
  show "set (getKeys (new_ConsulKvData (map (entry parse json) rs))) = (\<lambda>r. get_prop r ''Key'') ` set rs"
    using new_Map_props(3) [of "map (entry parse json) rs"]
    by (simp add: getKeys_def new_ConsulKvData_def image_image fst_entry)
  show "length (getKeys (new_ConsulKvData (map (entry parse json) rs))) \<le> length rs"
    using new_Map_props(4) [of "map (entry parse json) rs"]
    by (simp add: getKeys_def new_ConsulKvData_def)
  show "length (getKeys (new_ConsulKvData (map (entry parse json) rs))) = length rs \<longleftrightarrow>
     distinct_keys (map (\<lambda>r. get_prop r ''Key'') rs)"
    using new_Map_props(5) [of "map (entry parse json) rs"]
    by (simp add: getKeys_def new_ConsulKvData_def m del: map_map)
qed

text \<open>
  Claim C8, as the code has it.  With \<open>json\<close> set, the snapshot is the map built from the
  valid records whose value decodes, and nothing else: every entry of the map has as
  metadata a valid record, under that record's key, whose raw value decodes to the stored
  value; so a record that fails to decode is never stored and no raw string is stored in
  its place.  The same holds for what the lookups by a string key return.  The diagnostics
  are the validator's, followed by one per failed record, in record order, each carrying
  the key and the raw value.  The number of keys is at most the number of valid records
  minus the number of decode failures, and equal to it exactly when no two of the decoded
  records have the same key.
\<close>

theorem build_json_spec:
  "buildConsulKvData parse (JArr xs) True =
     (new_ConsulKvData (map (entry parse True)
        (filter (decodes parse) (fst (filterValidKvRecords (JArr xs))))),
      snd (filterValidKvRecords (JArr xs)) @
      map decode_diagnostic (decode_failures parse (JArr xs)))
   \<and> (\<forall>e \<in> set (kvMap (fst (buildConsulKvData parse (JArr xs) True))).
          \<exists>r \<in> set (fst (filterValidKvRecords (JArr xs))).
             fst e = get_prop r ''Key'' \<and> metaData (snd e) = r \<and>
             parse (get_prop r ''Value'') = Some (value (snd e)))
   \<and> (\<forall>k. hasKey (fst (buildConsulKvData parse (JArr xs) True)) k \<longrightarrow>
          (\<exists>r \<in> set (fst (filterValidKvRecords (JArr xs))).
             get_prop r ''Key'' = JStr k \<and>
             getMetadata (fst (buildConsulKvData parse (JArr xs) True)) k = r \<and>
             parse (get_prop r ''Value'') =
               Some (getValue (fst (buildConsulKvData parse (JArr xs) True)) k)))
   \<and> length (getKeys (fst (buildConsulKvData parse (JArr xs) True))) \<le>
       length (fst (filterValidKvRecords (JArr xs))) - length (decode_failures parse (JArr xs))
   \<and> (length (getKeys (fst (buildConsulKvData parse (JArr xs) True))) =
         length (fst (filterValidKvRecords (JArr xs))) - length (decode_failures parse (JArr xs))
       \<longleftrightarrow> distinct_keys (map (\<lambda>r. get_prop r ''Key'')
              (filter (decodes parse) (fst (filterValidKvRecords (JArr xs))))))"
proof -
  let ?valid = "fst (filterValidKvRecords (JArr xs))"
  let ?ok = "filter (decodes parse) ?valid"
  let ?snap = "fst (buildConsulKvData parse (JArr xs) True)"
  have st: "stored parse True = decodes parse"
    by (simp add: stored_def fun_eq_iff)
  have eq: "buildConsulKvData parse (JArr xs) True =
     (new_ConsulKvData (map (entry parse True) ?ok),
      snd (filterValidKvRecords (JArr xs)) @
      map decode_diagnostic (decode_failures parse (JArr xs)))"
    by (simp add: build_JArr st decode_failures_def)
  have snap: "?snap = new_ConsulKvData (map (entry parse True) ?ok)"
    by (simp add: eq)
  have len: "length ?ok = length ?valid - length (decode_failures parse (JArr xs))"
    using sum_length_filter_compl [of "decodes parse" ?valid] by (simp add: decode_failures_def)
  have ent: "\<exists>r \<in> set ?valid. fst e = get_prop r ''Key'' \<and> metaData (snd e) = r \<and>
                parse (get_prop r ''Value'') = Some (value (snd e))"
    if e: "e \<in> set (kvMap ?snap)" for e
  proof -
    from e have "e \<in> set (map (entry parse True) ?ok)"
      using new_Map_props(2) [of "map (entry parse True) ?ok"]
      by (auto simp: snap new_ConsulKvData_def)
    then obtain r where r: "r \<in> set ?ok" "e = entry parse True r" by auto
    from r(1) have d: "decodes parse r" and v: "r \<in> set ?valid" by simp_all
    from d obtain w where w: "parse (get_prop r ''Value'') = Some w"
      by (auto simp: decodes_def)
    from r(2) w have "fst e = get_prop r ''Key''" "metaData (snd e) = r" "value (snd e) = w"
      by (simp_all add: entry_def)
    with v w show ?thesis by auto
  qed
  have look: "\<exists>r \<in> set ?valid. get_prop r ''Key'' = JStr k \<and> getMetadata ?snap k = r \<and>
                parse (get_prop r ''Value'') = Some (getValue ?snap k)"
    if h: "hasKey ?snap k" for k
  proof -
    from h obtain b where b: "map_of (rev (map (entry parse True) ?ok)) (JStr k) = Some b"
      by (auto simp: hasKey_def snap lookup_entries)
    then obtain r where r: "r \<in> set ?ok" "b = snd (entry parse True r)" "get_prop r ''Key'' = JStr k"
      using map_of_entries_Some by blast
    from r(1) have d: "decodes parse r" and v: "r \<in> set ?valid" by simp_all
    from d obtain w where w: "parse (get_prop r ''Value'') = Some w"
      by (auto simp: decodes_def)
    have "getMetadata ?snap k = r" "getValue ?snap k = w"
      using b r(2) w
      by (simp_all add: getMetadata_def getValue_def snap lookup_entries entry_def)
    with v r(3) w show ?thesis by auto
  qed
  have le: "length (getKeys ?snap) \<le> length ?valid - length (decode_failures parse (JArr xs))"
    using getKeys_entries(3) [of parse True ?ok] by (simp only: snap len)
  have cnt: "length (getKeys ?snap) = length ?valid - length (decode_failures parse (JArr xs))
       \<longleftrightarrow> distinct_keys (map (\<lambda>r. get_prop r ''Key'') ?ok)"
    using getKeys_entries(4) [of parse True ?ok] by (simp only: snap len)
  show ?thesis using eq ent look le cnt by blast
qed

theorem build_json_spec_witness:
  "kvMap (fst (buildConsulKvData json_parse_sample mixed_batch True)) =
     [(JStr ''key1'', \<lparr>metaData = kv_record ''key1'' ''1'', value = JNum 1\<rparr>)]
   \<and> snd (buildConsulKvData json_parse_sample mixed_batch True) =
       [record_diagnostic (JNum 7), decode_diagnostic (kv_record ''key2'' ''someValue'')]
   \<and> hasKey (fst (buildConsulKvData json_parse_sample mixed_batch True)) ''key1''
   \<and> (\<exists>r \<in> set (fst (filterValidKvRecords mixed_batch)).
        get_prop r ''Key'' = JStr ''key1'' \<and>
        getMetadata (fst (buildConsulKvData json_parse_sample mixed_batch True)) ''key1'' = r \<and>
        json_parse_sample (get_prop r ''Value'') =
          Some (getValue (fst (buildConsulKvData json_parse_sample mixed_batch True)) ''key1''))
   \<and> distinct_keys (map (\<lambda>r. get_prop r ''Key'')
        (filter (decodes json_parse_sample) (fst (filterValidKvRecords mixed_batch))))
   \<and> length (getKeys (fst (buildConsulKvData json_parse_sample mixed_batch True))) =
       length (fst (filterValidKvRecords mixed_batch)) -
       length (decode_failures json_parse_sample mixed_batch)"
proof -
  have m: "kvMap (fst (buildConsulKvData json_parse_sample mixed_batch True)) =
     [(JStr ''key1'', \<lparr>metaData = kv_record ''key1'' ''1'', value = JNum 1\<rparr>)]"
    by code_simp
  have e: "snd (buildConsulKvData json_parse_sample mixed_batch True) =
       [record_diagnostic (JNum 7), decode_diagnostic (kv_record ''key2'' ''someValue'')]"
    by code_simp
  have h: "hasKey (fst (buildConsulKvData json_parse_sample mixed_batch True)) ''key1''"
    by code_simp
  have d: "distinct_keys (map (\<lambda>r. get_prop r ''Key'')
        (filter (decodes json_parse_sample) (fst (filterValidKvRecords mixed_batch))))"
    by code_simp
  from build_json_spec
         [of json_parse_sample "[kv_record ''key1'' ''1'', JNum 7, kv_record ''key2'' ''someValue'']"]
       m e h d
  show ?thesis unfolding mixed_batch_def by blast
qed

text \<open>
  Claim C8 as stated fails on a batch with a repeated key: both records of \<open>dup_batch\<close>
  are valid and decode, yet the snapshot has one key.
\<close>

theorem build_key_count_counterexample:
  "length (getKeys (fst (buildConsulKvData json_parse_sample dup_batch True))) \<noteq>
   length (fst (filterValidKvRecords dup_batch)) - length (decode_failures json_parse_sample dup_batch)"
  by code_simp

text \<open>Two records whose keys are arrays are two entries, however alike the arrays.\<close>

lemma array_keys_kept:
  "length (getKeys (fst (buildConsulKvData json_parse_sample array_key_batch True))) = 2"
  by code_simp




section \<open>What the basic operations leave alone\<close>

lemma emit_frame [simp]:
  "watchKvChange (emit n s) = watchKvChange s"
  "watchers (emit n s) = watchers s"
  "pending (emit n s) = pending s"
  "initialized (emit n s) = initialized s"
  "jobs (emit n s) = jobs s"
  "timers (emit n s) = timers s"
  "next_timer (emit n s) = next_timer s"
  "fallbackToWatchHealthyInterval (emit n s) = fallbackToWatchHealthyInterval s"
  "retryTimer (emit n s) = retryTimer s"
  "isWatchHealthy (emit n s) = isWatchHealthy s"
  "json_option (emit n s) = json_option s"
  "timeoutMsec (emit n s) = timeoutMsec s"
  "immediates (emit n s) = immediates s"
  "user_results (emit n s) = user_results s"
  "consulKvData (emit n s) = consulKvData s"
  "consulHeaders (emit n s) = consulHeaders s"
  by (simp_all add: emit_def)

lemma setTimer_frame [simp]:
  "watchKvChange (setTimer msec task s) = watchKvChange s"
  "watchers (setTimer msec task s) = watchers s"
  "pending (setTimer msec task s) = pending s"
  "initialized (setTimer msec task s) = initialized s"
  "jobs (setTimer msec task s) = jobs s"
  "fallbackToWatchHealthyInterval (setTimer msec task s) = fallbackToWatchHealthyInterval s"
  "retryTimer (setTimer msec task s) = retryTimer s"
  "isWatchHealthy (setTimer msec task s) = isWatchHealthy s"
  "json_option (setTimer msec task s) = json_option s"
  "timeoutMsec (setTimer msec task s) = timeoutMsec s"
  "immediates (setTimer msec task s) = immediates s"
  "emitted (setTimer msec task s) = emitted s"
  "user_results (setTimer msec task s) = user_results s"
  "consulKvData (setTimer msec task s) = consulKvData s"
  "consulHeaders (setTimer msec task s) = consulHeaders s"
  by (simp_all add: setTimer_def)

lemma clearTimer_frame [simp]:
  "watchKvChange (clearTimer h s) = watchKvChange s"
  "watchers (clearTimer h s) = watchers s"
  "pending (clearTimer h s) = pending s"
  "initialized (clearTimer h s) = initialized s"
  "jobs (clearTimer h s) = jobs s"
  "next_timer (clearTimer h s) = next_timer s"
  "fallbackToWatchHealthyInterval (clearTimer h s) = fallbackToWatchHealthyInterval s"
  "retryTimer (clearTimer h s) = retryTimer s"
  "isWatchHealthy (clearTimer h s) = isWatchHealthy s"
  "json_option (clearTimer h s) = json_option s"
  "timeoutMsec (clearTimer h s) = timeoutMsec s"
  "immediates (clearTimer h s) = immediates s"
  "emitted (clearTimer h s) = emitted s"
  "user_results (clearTimer h s) = user_results s"
  "consulKvData (clearTimer h s) = consulKvData s"
  "consulHeaders (clearTimer h s) = consulHeaders s"
  by (simp_all add: clearTimer_def split: option.splits)

lemma setImmediate_frame [simp]:
  "watchKvChange (setImmediate es s) = watchKvChange s"
  "watchers (setImmediate es s) = watchers s"
  "pending (setImmediate es s) = pending s"
  "initialized (setImmediate es s) = initialized s"
  "jobs (setImmediate es s) = jobs s"
  "timers (setImmediate es s) = timers s"
  "next_timer (setImmediate es s) = next_timer s"
  "fallbackToWatchHealthyInterval (setImmediate es s) = fallbackToWatchHealthyInterval s"
  "retryTimer (setImmediate es s) = retryTimer s"
  "isWatchHealthy (setImmediate es s) = isWatchHealthy s"
  "json_option (setImmediate es s) = json_option s"
  "timeoutMsec (setImmediate es s) = timeoutMsec s"
  "emitted (setImmediate es s) = emitted s"
  "user_results (setImmediate es s) = user_results s"
  "consulKvData (setImmediate es s) = consulKvData s"
  "consulHeaders (setImmediate es s) = consulHeaders s"
  by (simp_all add: setImmediate_def)

lemma copyHeaders_frame [simp]:
  "watchKvChange (copyHeaders response s) = watchKvChange s"
  "watchers (copyHeaders response s) = watchers s"
  "pending (copyHeaders response s) = pending s"
  "initialized (copyHeaders response s) = initialized s"
  "jobs (copyHeaders response s) = jobs s"
  "timers (copyHeaders response s) = timers s"
  "next_timer (copyHeaders response s) = next_timer s"
  "fallbackToWatchHealthyInterval (copyHeaders response s) = fallbackToWatchHealthyInterval s"
  "retryTimer (copyHeaders response s) = retryTimer s"
  "isWatchHealthy (copyHeaders response s) = isWatchHealthy s"
  "json_option (copyHeaders response s) = json_option s"
  "timeoutMsec (copyHeaders response s) = timeoutMsec s"
  "immediates (copyHeaders response s) = immediates s"
  "emitted (copyHeaders response s) = emitted s"
  "user_results (copyHeaders response s) = user_results s"
  "consulKvData (copyHeaders response s) = consulKvData s"
  by (simp_all add: copyHeaders_def)

lemma upd_watcher_frame [simp]:
  "watchKvChange (upd_watcher w f s) = watchKvChange s"
  "pending (upd_watcher w f s) = pending s"
  "initialized (upd_watcher w f s) = initialized s"
  "jobs (upd_watcher w f s) = jobs s"
  "timers (upd_watcher w f s) = timers s"
  "next_timer (upd_watcher w f s) = next_timer s"
  "fallbackToWatchHealthyInterval (upd_watcher w f s) = fallbackToWatchHealthyInterval s"
  "retryTimer (upd_watcher w f s) = retryTimer s"
  "isWatchHealthy (upd_watcher w f s) = isWatchHealthy s"
  "json_option (upd_watcher w f s) = json_option s"
  "timeoutMsec (upd_watcher w f s) = timeoutMsec s"
  "immediates (upd_watcher w f s) = immediates s"
  "emitted (upd_watcher w f s) = emitted s"
  "user_results (upd_watcher w f s) = user_results s"
  "consulKvData (upd_watcher w f s) = consulKvData s"
  "consulHeaders (upd_watcher w f s) = consulHeaders s"
  by (simp_all add: upd_watcher_def)

lemma settle_frame [simp]:
  "watchKvChange (settle w r s) = watchKvChange s"
  "watchers (settle w r s) = watchers s"
  "initialized (settle w r s) = initialized s"
  "timers (settle w r s) = timers s"
  "next_timer (settle w r s) = next_timer s"
  "fallbackToWatchHealthyInterval (settle w r s) = fallbackToWatchHealthyInterval s"
  "retryTimer (settle w r s) = retryTimer s"
  "isWatchHealthy (settle w r s) = isWatchHealthy s"
  "json_option (settle w r s) = json_option s"
  "timeoutMsec (settle w r s) = timeoutMsec s"
  "immediates (settle w r s) = immediates s"
  "emitted (settle w r s) = emitted s"
  "user_results (settle w r s) = user_results s"
  "consulKvData (settle w r s) = consulKvData s"
  "consulHeaders (settle w r s) = consulHeaders s"
  by (simp_all add: settle_def split: option.splits)

lemma unsetFallbackToWatchHealthy_frame [simp]:
  "watchKvChange (unsetFallbackToWatchHealthy s) = watchKvChange s"
  "watchers (unsetFallbackToWatchHealthy s) = watchers s"
  "pending (unsetFallbackToWatchHealthy s) = pending s"
  "initialized (unsetFallbackToWatchHealthy s) = initialized s"
  "jobs (unsetFallbackToWatchHealthy s) = jobs s"
  "next_timer (unsetFallbackToWatchHealthy s) = next_timer s"
  "retryTimer (unsetFallbackToWatchHealthy s) = retryTimer s"
  "isWatchHealthy (unsetFallbackToWatchHealthy s) = isWatchHealthy s"
  "json_option (unsetFallbackToWatchHealthy s) = json_option s"
  "timeoutMsec (unsetFallbackToWatchHealthy s) = timeoutMsec s"
  "immediates (unsetFallbackToWatchHealthy s) = immediates s"
  "emitted (unsetFallbackToWatchHealthy s) = emitted s"
  "user_results (unsetFallbackToWatchHealthy s) = user_results s"
  "consulKvData (unsetFallbackToWatchHealthy s) = consulKvData s"
  "consulHeaders (unsetFallbackToWatchHealthy s) = consulHeaders s"
  by (simp_all add: unsetFallbackToWatchHealthy_def clearTimer_def split: option.splits)

lemma emitFactoryErrors_frame [simp]:
  "watchKvChange (emitFactoryErrors es s) = watchKvChange s"
  "watchers (emitFactoryErrors es s) = watchers s"
  "pending (emitFactoryErrors es s) = pending s"
  "initialized (emitFactoryErrors es s) = initialized s"
  "jobs (emitFactoryErrors es s) = jobs s"
  "timers (emitFactoryErrors es s) = timers s"
  "next_timer (emitFactoryErrors es s) = next_timer s"
  "fallbackToWatchHealthyInterval (emitFactoryErrors es s) = fallbackToWatchHealthyInterval s"
  "retryTimer (emitFactoryErrors es s) = retryTimer s"
  "isWatchHealthy (emitFactoryErrors es s) = isWatchHealthy s"
  "json_option (emitFactoryErrors es s) = json_option s"
  "timeoutMsec (emitFactoryErrors es s) = timeoutMsec s"
  "emitted (emitFactoryErrors es s) = emitted s"
  "user_results (emitFactoryErrors es s) = user_results s"
  "consulKvData (emitFactoryErrors es s) = consulKvData s"
  "consulHeaders (emitFactoryErrors es s) = consulHeaders s"
  by (simp_all add: emitFactoryErrors_def setImmediate_def)


section \<open>The timers invariant\<close>

lemmas TO_defs = timers_inv_def timers_ok_def tids_ok_def tid_safe_def closure_tids_def

lemma TO_emit [simp]: "timers_inv X (emit n s) = timers_inv X s"
  by (simp add: TO_defs)
lemma TO_setImmediate [simp]: "timers_inv X (setImmediate es s) = timers_inv X s"
  by (simp add: TO_defs)
lemma TO_copyHeaders [simp]: "timers_inv X (copyHeaders r s) = timers_inv X s"
  by (simp add: TO_defs)
lemma TO_settle [simp]: "timers_inv X (settle w r s) = timers_inv X s"
  by (simp add: TO_defs)
lemma TO_emitFactoryErrors [simp]: "timers_inv X (emitFactoryErrors es s) = timers_inv X s"
  by (simp add: TO_defs)

lemma TO_fields [simp]:
  "timers_inv X (s\<lparr>initialized := b\<rparr>) = timers_inv X s"
  "timers_inv X (s\<lparr>isWatchHealthy := b\<rparr>) = timers_inv X s"
  "timers_inv X (s\<lparr>watchKvChange := c\<rparr>) = timers_inv X s"
  "timers_inv X (s\<lparr>consulKvData := d\<rparr>) = timers_inv X s"
  "timers_inv X (s\<lparr>pending := p\<rparr>) = timers_inv X s"
  "timers_inv X (s\<lparr>jobs := j\<rparr>) = timers_inv X s"
  "timers_inv X (s\<lparr>immediates := i\<rparr>) = timers_inv X s"
  "timers_inv X (s\<lparr>user_results := u\<rparr>) = timers_inv X s"
  "timers_inv X (s\<lparr>emitted := e\<rparr>) = timers_inv X s"
  by (simp_all add: TO_defs)

lemma TO_clearTimer:
  assumes "timers_inv X s" and "case h of None \<Rightarrow> True | Some t \<Rightarrow> \<not> list_ex (\<lambda>x. fst x = t \<and> is_fallback x) (timers s)"
  shows "timers_inv X (clearTimer h s)"
proof (cases h)
  case None
  then show ?thesis using assms by (simp add: clearTimer_def)
next
  case (Some t)
  have f: "filter is_fallback (filter (\<lambda>x. fst x \<noteq> t) (timers s)) = filter is_fallback (timers s)"
    using assms(2) Some by (auto simp: list_ex_iff intro!: filter_cong)
  show ?thesis using assms(1) Some f
    by (auto simp: TO_defs clearTimer_def distinct_map_filter list_all_iff list_ex_iff)
qed

lemma TO_unsetFallback: "timers_inv X s \<Longrightarrow> timers_inv X (unsetFallbackToWatchHealthy s)"
proof -
  assume a: "timers_inv X s"
  show ?thesis
  proof (cases "fallbackToWatchHealthyInterval s")
    case None
    then show ?thesis using a by (simp add: unsetFallbackToWatchHealthy_def clearTimer_def TO_defs)
  next
    case (Some t)
    from a Some have one: "map fst (filter is_fallback (timers s)) = [t]"
      by (simp add: TO_defs)
    have "filter is_fallback (filter (\<lambda>x. fst x \<noteq> t) (timers s)) = []"
    proof -
      have "fst ` set (filter is_fallback (timers s)) = {t}"
        using arg_cong [OF one, of set] by simp
      then have "\<forall>x \<in> set (filter is_fallback (timers s)). fst x = t"
        by blast
      then show ?thesis by (fastforce simp: filter_empty_conv)
    qed
    then show ?thesis using a Some
      by (auto simp: unsetFallbackToWatchHealthy_def clearTimer_def TO_defs distinct_map_filter
            list_all_iff list_ex_iff)
  qed
qed

lemma TO_setTimer:
  assumes a: "timers_inv X s" and n: "\<not> is_fallback (next_timer s, msec, task)"
  shows "timers_inv X (setTimer msec task s)"
proof -
  from a have lt: "\<forall>x \<in> set (timers s). fst x < next_timer s"
    by (simp add: TO_defs list_all_iff)
  then have fresh: "next_timer s \<notin> fst ` set (timers s)" by auto
  have t: "timers_ok (setTimer msec task s)"
    using a n lt fresh by (auto simp: TO_defs setTimer_def list_all_iff)
  have c: "closure_tids (setTimer msec task s) = closure_tids s"
    by (simp add: closure_tids_def)
  have "tid_safe t (setTimer msec task s)" if "tid_safe t s" for t
    using that by (auto simp: tid_safe_def setTimer_def list_ex_iff)
  then have "tids_ok X (setTimer msec task s)"
    unfolding tids_ok_def c using a by (simp add: timers_inv_def tids_ok_def)
  with t show ?thesis by (simp add: timers_inv_def)
qed


lemma closure_upd_subset:
  assumes "watcher_tids (f (watchers s ! w)) \<subseteq> watcher_tids (watchers s ! w) \<union> T"
  shows "closure_tids (upd_watcher w f s) \<subseteq> closure_tids s \<union> T"
proof (cases "w < length (watchers s)")
  case False
  then have "(watchers s)[w := f (watchers s ! w)] = watchers s"
    by (simp add: not_less list_update_beyond)
  then show ?thesis by (auto simp: closure_tids_def upd_watcher_def)
next
  case True
  then have m: "watchers s ! w \<in> set (watchers s)" by simp
  have "set ((watchers s)[w := f (watchers s ! w)]) \<subseteq> insert (f (watchers s ! w)) (set (watchers s))"
    by (rule set_update_subset_insert)
  then show ?thesis using assms m
    by (auto simp: closure_tids_def upd_watcher_def)
qed

lemma TO_mono:
  assumes "timers_inv X s" "timers s' = timers s" "next_timer s' = next_timer s"
    "fallbackToWatchHealthyInterval s' = fallbackToWatchHealthyInterval s"
    "closure_tids s' \<subseteq> closure_tids s \<union> T"
    "\<forall>t \<in> T. t < next_timer s \<and> \<not> list_ex (\<lambda>x. fst x = t \<and> is_fallback x) (timers s)"
  shows "timers_inv X s'"
  using assms unfolding timers_inv_def timers_ok_def tids_ok_def tid_safe_def by (simp add: subset_iff) blast

lemma TO_upd_add:
  assumes "timers_inv X s" "watcher_tids (f (watchers s ! w)) \<subseteq> watcher_tids (watchers s ! w) \<union> T"
    "\<forall>t \<in> T. t < next_timer s \<and> \<not> list_ex (\<lambda>x. fst x = t \<and> is_fallback x) (timers s)"
  shows "timers_inv X (upd_watcher w f s)"
proof -
  have c: "closure_tids (upd_watcher w f s) \<subseteq> closure_tids s \<union> T"
    using assms(2) by (rule closure_upd_subset)
  show ?thesis
    by (rule TO_mono [OF assms(1) _ _ _ c assms(3)]) simp_all
qed

lemma TO_upd:
  "timers_inv X s \<Longrightarrow> watcher_tids (f (watchers s ! w)) \<subseteq> watcher_tids (watchers s ! w) \<Longrightarrow>
     timers_inv X (upd_watcher w f s)"
  using TO_upd_add [of X s f w "{}"] by simp

lemma set_removeListener: "set (removeListener l ls) \<subseteq> set ls"
  using set_remove1_subset [of l "rev ls"] by (simp add: removeListener_def)

lemma watcher_tids_simps [simp]:
  "watcher_tids (x\<lparr>end_ls := e\<rparr>) = watcher_tids x"
  "watcher_tids (x\<lparr>ended := b\<rparr>) = watcher_tids x"
  "watcher_tids (x\<lparr>updateTime := u\<rparr>) = watcher_tids x"
  by (simp_all add: watcher_tids_def)

lemma watcher_tids_remove:
  "watcher_tids (x\<lparr>error_ls := removeListener l (error_ls x)\<rparr>) \<subseteq> watcher_tids x"
  "watcher_tids (x\<lparr>change_ls := removeListener l (change_ls x)\<rparr>) \<subseteq> watcher_tids x"
  "watcher_tids (x\<lparr>error_ls := remove1 l (error_ls x)\<rparr>) \<subseteq> watcher_tids x"
  "watcher_tids (x\<lparr>change_ls := remove1 l (change_ls x)\<rparr>) \<subseteq> watcher_tids x"
  using set_removeListener [of l "error_ls x"] set_removeListener [of l "change_ls x"]
    set_remove1_subset [of l "error_ls x"] set_remove1_subset [of l "change_ls x"]
  by (auto simp: watcher_tids_def)

lemma watcher_tids_handlers:
  "watcher_tids (x\<lparr>error_ls := error_ls x @ [OnWatcherError]\<rparr>) = watcher_tids x"
  "watcher_tids (x\<lparr>change_ls := change_ls x @ [OnWatcherChange]\<rparr>) = watcher_tids x"
  by (auto simp: watcher_tids_def)

lemma TO_attachHandlers: "timers_inv X s \<Longrightarrow> timers_inv X (attachHandlers w s)"
  unfolding attachHandlers_def
  by (intro TO_upd) (simp_all add: watcher_tids_handlers)

lemma TO_upd_add1:
  assumes "timers_inv X s" "watcher_tids (f (watchers s ! w)) \<subseteq> watcher_tids (watchers s ! w) \<union> {t}"
    "tid_safe t s"
  shows "timers_inv X (upd_watcher w f s)"
  using TO_upd_add [of X s f w "{t}"] assms by (simp add: tid_safe_def)

lemma tid_safe_upd [simp]: "tid_safe t (upd_watcher w f s) = tid_safe t s"
  by (simp add: tid_safe_def)

lemma TO_register:
  assumes a: "timers_inv X s"
  shows "timers_inv X (registerWatcherAndWaitForInitialKvData c s)"
proof -
  define w where "w = length (watchers s)"
  define s1 where "s1 = s\<lparr>watchers := watchers s @ [new_watcher], watchKvChange := Some w\<rparr>"
  define t where "t = next_timer s1"
  define s2 where "s2 = setTimer (timeoutMsec s1) (InitialTimeout w) s1"
  define s3 where "s3 = upd_watcher w (\<lambda>x. x\<lparr>change_ls := change_ls x @ [FirstChange w t]\<rparr>) s2"
  define s4 where "s4 = upd_watcher w (\<lambda>x. x\<lparr>error_ls := error_ls x @ [FirstError w t]\<rparr>) s3"
  have r: "registerWatcherAndWaitForInitialKvData c s = s4\<lparr>pending := pending s4 @ [(w, c)]\<rparr>"
    by (simp add: registerWatcherAndWaitForInitialKvData_def Let_def s4_def s3_def s2_def t_def
          s1_def w_def)
  have 1: "timers_inv X s1"
    using a by (simp add: s1_def TO_defs watcher_tids_def new_watcher_def)
  have 2: "timers_inv X s2"
    unfolding s2_def using 1 by (rule TO_setTimer) simp
  have lt: "\<forall>x \<in> set (timers s1). fst x < t"
    using 1 by (simp add: TO_defs list_all_iff t_def)
  have safe: "tid_safe t s2"
    using lt by (auto simp: tid_safe_def s2_def setTimer_def t_def list_ex_iff)
  have 3: "timers_inv X s3"
    unfolding s3_def using 2 _ safe by (rule TO_upd_add1) (auto simp: watcher_tids_def)
  have safe3: "tid_safe t s3" using safe by (simp add: s3_def)
  have 4: "timers_inv X s4"
    unfolding s4_def using 3 _ safe3 by (rule TO_upd_add1) (auto simp: watcher_tids_def)
  show ?thesis using 4 by (simp add: r)
qed

lemma TO_start: "timers_inv X s \<Longrightarrow> timers_inv X (start c s)"
  by (simp add: start_def TO_register)

lemma TO_onWatcherEnd: "timers_inv X s \<Longrightarrow> timers_inv X (onWatcherEnd s)"
  by (simp add: onWatcherEnd_def Let_def retryStartService_def TO_start TO_unsetFallback)

lemma TO_fold_end: "timers_inv X s \<Longrightarrow> timers_inv X (fold end_listener ls s)"
  by (induction ls arbitrary: s) (simp_all add: end_listener_def TO_onWatcherEnd)

lemma TO_watcher_end: "timers_inv X s \<Longrightarrow> timers_inv X (watcher_end v s)"
  by (simp add: watcher_end_def TO_fold_end TO_upd)

lemma TO_clear_retry:
  assumes a: "timers_inv X s"
  shows "timers_inv X ((clearTimer (retryTimer s) s)\<lparr>retryTimer := None\<rparr>)"
proof -
  have safe: "case retryTimer s of None \<Rightarrow> True
      | Some t \<Rightarrow> \<not> list_ex (\<lambda>x. fst x = t \<and> is_fallback x) (timers s)"
    using a by (auto simp: TO_defs split: option.splits)
  have c: "timers_inv X (clearTimer (retryTimer s) s)"
    using a safe by (rule TO_clearTimer)
  have d: "closure_tids ((clearTimer (retryTimer s) s)\<lparr>retryTimer := None\<rparr>) \<subseteq>
          closure_tids (clearTimer (retryTimer s) s) \<union> {}"
    by (auto simp: closure_tids_def)
  show ?thesis
    by (rule TO_mono [OF c _ _ _ d]) simp_all
qed

lemma TO_stop: "timers_inv X s \<Longrightarrow> timers_inv X (stop s)"
  by (auto simp: stop_def Let_def TO_clear_retry TO_unsetFallback TO_watcher_end TO_upd
        split: option.splits)

lemma TO_safe: "timers_inv X s \<Longrightarrow> t \<in> X \<Longrightarrow> tid_safe t s"
  by (simp add: timers_inv_def tids_ok_def)

lemma TO_clear_safe: "timers_inv X s \<Longrightarrow> tid_safe t s \<Longrightarrow> timers_inv X (clearTimer (Some t) s)"
  by (rule TO_clearTimer) (simp_all add: tid_safe_def)

lemma TO_firstChange:
  assumes "firstChange parse w t data response s = Some s'" "timers_inv X s" "t \<in> X"
  shows "timers_inv X s'"
proof (cases "watchKvChange s")
  case None
  with assms(1) show ?thesis by (simp add: firstChange_def)
next
  case (Some cur)
  define s1 where "s1 = upd_watcher cur (\<lambda>x. x\<lparr>error_ls := removeListener (FirstError w t) (error_ls x)\<rparr>) s"
  have 1: "timers_inv X s1"
    unfolding s1_def using assms(2) by (rule TO_upd) (rule watcher_tids_remove)
  then have 2: "timers_inv X (clearTimer (Some t) s1)"
    using TO_safe [OF 1 assms(3)] by (rule TO_clear_safe)
  from assms(1) Some 2 show ?thesis
    by (auto simp: firstChange_def Let_def s1_def)
qed

lemma TO_firstError:
  assumes "firstError w t err s = Some s'" "timers_inv X s" "t \<in> X"
  shows "timers_inv X s'"
proof (cases "watchKvChange s")
  case None
  with assms(1) show ?thesis by (simp add: firstError_def)
next
  case (Some cur)
  define s1 where "s1 = upd_watcher cur (\<lambda>x. x\<lparr>change_ls := removeListener (FirstChange w t) (change_ls x)\<rparr>) s"
  define s2 where "s2 = (watcher_end cur s1)\<lparr>watchKvChange := None\<rparr>"
  have 1: "timers_inv X s1"
    unfolding s1_def using assms(2) by (rule TO_upd) (rule watcher_tids_remove)
  then have 2: "timers_inv X s2"
    by (simp add: s2_def TO_watcher_end)
  then have 3: "timers_inv X (clearTimer (Some t) s2)"
    using TO_safe [OF 2 assms(3)] by (rule TO_clear_safe)
  from assms(1) Some 3 show ?thesis
    by (auto simp: firstError_def Let_def s1_def s2_def)
qed

lemma TO_initialTimeout:
  assumes "initialTimeout w t s = Some s'" "timers_inv X s"
  shows "timers_inv X s'"
proof (cases "watchKvChange s")
  case None
  with assms(1) show ?thesis by (simp add: initialTimeout_def)
next
  case (Some cur)
  define s1 where "s1 = upd_watcher cur (\<lambda>x. x\<lparr>error_ls := removeListener (FirstError w t) (error_ls x)\<rparr>) s"
  define s2 where "s2 = upd_watcher cur (\<lambda>x. x\<lparr>change_ls := removeListener (FirstChange w t) (change_ls x)\<rparr>) s1"
  have 1: "timers_inv X s1"
    unfolding s1_def using assms(2) by (rule TO_upd) (rule watcher_tids_remove)
  have 2: "timers_inv X s2"
    unfolding s2_def using 1 by (rule TO_upd) (rule watcher_tids_remove)
  then have 3: "timers_inv X ((watcher_end cur s2)\<lparr>watchKvChange := None\<rparr>)"
    by (simp add: TO_watcher_end)
  from assms(1) Some 3 show ?thesis
    by (auto simp: initialTimeout_def Let_def s1_def s2_def)
qed

lemma TO_onWatcherChange: "timers_inv X s \<Longrightarrow> timers_inv X (onWatcherChange parse data response s)"
  by (simp add: onWatcherChange_def Let_def)

lemma TO_setFallback:
  assumes "setFallbackToWatchHealthy s = Some s'" "timers_inv X s"
  shows "timers_inv X s'"
proof -
  define s1 where "s1 = (if fallbackToWatchHealthyInterval s \<noteq> None then unsetFallbackToWatchHealthy s else s)"
  have 1: "timers_inv X s1"
    using assms(2) by (simp add: s1_def TO_unsetFallback)
  have n: "fallbackToWatchHealthyInterval s1 = None"
    by (simp add: s1_def unsetFallbackToWatchHealthy_def)
  from assms(1) obtain w where w: "watchKvChange s1 = Some w"
    and s': "s' = (setTimer HEALTH_FALLBACK_INTERVAL_MSEC (FallbackTick (updateTime (watchers s1 ! w))) s1)
                   \<lparr>fallbackToWatchHealthyInterval := Some (next_timer s1)\<rparr>"
    by (auto simp: setFallbackToWatchHealthy_def Let_def s1_def split: option.splits if_splits)
  from 1 have lt: "\<forall>x \<in> set (timers s1). fst x < next_timer s1"
    by (simp add: TO_defs list_all_iff)
  then have fresh: "next_timer s1 \<notin> fst ` set (timers s1)" by auto
  have t: "timers_ok s'"
    using 1 n lt fresh by (auto simp: TO_defs s' setTimer_def list_all_iff)
  have c: "closure_tids s' = closure_tids s1"
    by (simp add: closure_tids_def s')
  have "tid_safe t s'" if "tid_safe t s1" for t
    using that by (auto simp: tid_safe_def s' setTimer_def list_ex_iff)
  then have "tids_ok X s'"
    unfolding tids_ok_def c using 1 by (simp add: timers_inv_def tids_ok_def)
  with t show ?thesis by (simp add: timers_inv_def)
qed

lemma TO_onWatcherError:
  assumes "onWatcherError err s = Some s'" "timers_inv X s"
  shows "timers_inv X s'"
proof -
  define s2 where "s2 = (let s1 = unsetFallbackToWatchHealthy s in
     if isWatchHealthy s1 then emit Unhealthy (s1\<lparr>isWatchHealthy := False\<rparr>) else s1)"
  have 2: "timers_inv X s2"
    using assms(2) by (simp add: s2_def Let_def TO_unsetFallback)
  from assms(1) obtain s3 where 3: "setFallbackToWatchHealthy s2 = Some s3"
    and s': "s' = emit (Error (KvError WatchError err (ExErr err))) s3"
    by (auto simp: onWatcherError_def Let_def s2_def split: option.splits)
  from TO_setFallback [OF 3 2] show ?thesis by (simp add: s')
qed

lemma TO_fallback_tick:
  "fallback_tick b s = Some s' \<Longrightarrow> timers_inv X s \<Longrightarrow> timers_inv X s'"
  by (auto simp: fallback_tick_def TO_unsetFallback split: if_splits option.splits)

lemma TO_retry_schedule:
  assumes a: "timers_inv X s"
  shows "timers_inv X ((setTimer m RetryStartService s)\<lparr>retryTimer := Some (next_timer s)\<rparr>)"
proof -
  define s2 where "s2 = setTimer m RetryStartService s"
  have 2: "timers_inv X s2"
    unfolding s2_def using a by (rule TO_setTimer) simp
  from a have lt: "\<forall>x \<in> set (timers s). fst x < next_timer s"
    by (simp add: TO_defs list_all_iff)
  then have safe: "\<forall>t \<in> {next_timer s}. t < next_timer s2 \<and>
      \<not> list_ex (\<lambda>x. fst x = t \<and> is_fallback x) (timers s2)"
    by (auto simp: s2_def setTimer_def list_ex_iff)
  have c: "closure_tids (s2\<lparr>retryTimer := Some (next_timer s)\<rparr>) \<subseteq> closure_tids s2 \<union> {next_timer s}"
    by (auto simp: closure_tids_def)
  have "timers_inv X (s2\<lparr>retryTimer := Some (next_timer s)\<rparr>)"
    by (rule TO_mono [OF 2 _ _ _ c safe]) simp_all
  then show ?thesis by (simp add: s2_def)
qed

lemma TO_run_job: "timers_inv X s \<Longrightarrow> timers_inv X (run_job j s)"
proof (induction j s rule: run_job.induct)
  case (5 err s)
  have "timers_inv X (setImmediate [err] s)" using 5 by simp
  from TO_retry_schedule [OF this] show ?case by (simp add: Let_def)
qed (auto simp: TO_attachHandlers split: option.splits)

lemma TO_fold_jobs: "timers_inv X s \<Longrightarrow> timers_inv X (fold run_job js s)"
  by (induction js arbitrary: s) (simp_all add: TO_run_job)

lemma TO_drain: "timers_inv X s \<Longrightarrow> timers_inv X (drain s)"
  by (simp add: drain_def run_jobs_def TO_fold_jobs)

lemma TO_fold_emit: "timers_inv X (fold (\<lambda>error. emit (Error error)) es s) = timers_inv X s"
  by (induction es arbitrary: s) simp_all

lemma TO_run_immediate: "timers_inv X s \<Longrightarrow> timers_inv X (run_immediate s)"
  by (simp add: run_immediate_def TO_fold_emit split: list.splits)

lemma TO_change_listener:
  assumes "change_listener parse v data response l s = Some s'" "timers_inv X s" "listener_tids l \<subseteq> X"
  shows "timers_inv X s'"
proof (cases l)
  case (FirstChange w t)
  have "timers_inv X (upd_watcher v (\<lambda>x. x\<lparr>change_ls := remove1 (FirstChange w t) (change_ls x)\<rparr>) s)"
    using assms(2) by (rule TO_upd) (rule watcher_tids_remove)
  moreover from assms(1) FirstChange
  have "firstChange parse w t data response
          (upd_watcher v (\<lambda>x. x\<lparr>change_ls := remove1 (FirstChange w t) (change_ls x)\<rparr>) s) = Some s'"
    by simp
  moreover from assms(3) FirstChange have "t \<in> X" by simp
  ultimately show ?thesis using TO_firstChange by blast
qed (use assms in \<open>auto simp: TO_onWatcherChange\<close>)

lemma TO_error_listener:
  assumes "error_listener v err l s = Some s'" "timers_inv X s" "listener_tids l \<subseteq> X"
  shows "timers_inv X s'"
proof (cases l)
  case (FirstError w t)
  have "timers_inv X (upd_watcher v (\<lambda>x. x\<lparr>error_ls := remove1 (FirstError w t) (error_ls x)\<rparr>) s)"
    using assms(2) by (rule TO_upd) (rule watcher_tids_remove)
  moreover from assms(1) FirstError
  have "firstError w t err
          (upd_watcher v (\<lambda>x. x\<lparr>error_ls := remove1 (FirstError w t) (error_ls x)\<rparr>) s) = Some s'"
    by simp
  moreover from assms(3) FirstError have "t \<in> X" by simp
  ultimately show ?thesis using TO_firstError by blast
next
  case OnWatcherError
  with assms(1) have "onWatcherError err s = Some s'" by simp
  then show ?thesis using assms(2) by (rule TO_onWatcherError)
qed (use assms in auto)

lemma TO_run_listeners:
  assumes f: "\<And>l s s'. f l s = Some s' \<Longrightarrow> timers_inv X s \<Longrightarrow> listener_tids l \<subseteq> X \<Longrightarrow> timers_inv X s'"
  shows "run_listeners f ls s = Some s' \<Longrightarrow> timers_inv X s \<Longrightarrow>
         (\<Union>l \<in> set ls. listener_tids l) \<subseteq> X \<Longrightarrow> timers_inv X s'"
proof (induction ls arbitrary: s)
  case Nil
  then show ?case by simp
next
  case (Cons l ls)
  from Cons.prems(1) obtain s1 where 1: "f l s = Some s1" and 2: "run_listeners f ls s1 = Some s'"
    by (auto split: option.splits)
  from Cons.prems(3) have a: "listener_tids l \<subseteq> X" and b: "(\<Union>l \<in> set ls. listener_tids l) \<subseteq> X"
    by auto
  from f [OF 1 Cons.prems(2) a] have "timers_inv X s1" .
  from Cons.IH [OF 2 this b] show ?case .
qed

lemma TO_widen:
  "timers_inv {} s \<Longrightarrow> X \<subseteq> closure_tids s \<Longrightarrow> timers_inv X s"
  by (auto simp: timers_inv_def tids_ok_def)

lemma TO_narrow: "timers_inv X s \<Longrightarrow> timers_inv {} s"
  by (auto simp: timers_inv_def tids_ok_def)

lemma TO_timer_safe:
  assumes a: "timers_inv X s" and m: "map_of (timers s) t = Some (msec, task)"
    and n: "\<not> is_fallback (t, msec, task)"
  shows "tid_safe t s"
proof -
  from m have i: "(t, msec, task) \<in> set (timers s)" by (rule map_of_SomeD)
  from a have d: "distinct (map fst (timers s))" and lt: "\<forall>x \<in> set (timers s). fst x < next_timer s"
    by (simp_all add: TO_defs list_all_iff)
  have nf: "\<not> is_fallback x" if x: "x \<in> set (timers s)" "fst x = t" for x
  proof -
    obtain a b c where e: "x = (a, b, c)" by (cases x)
    with x have "(t, b, c) \<in> set (timers s)" by simp
    from eq_key_imp_eq_value [OF d i this] have "(msec, task) = (b, c)" .
    with e x(2) n show ?thesis by simp
  qed
  from i lt have "t < next_timer s" by fastforce
  with nf show ?thesis by (simp add: tid_safe_def list_ex_iff)
qed

lemma TO_timer_fires:
  assumes "timer_fires t s = Some s'" "timers_inv {} s"
  shows "timers_inv {} s'"
proof (cases "map_of (timers s) t")
  case None
  with assms show ?thesis by (simp add: timer_fires_def)
next
  case (Some p)
  obtain msec task where p: "p = (msec, task)" by (cases p)
  show ?thesis
  proof (cases task)
    case (InitialTimeout w)
    have "tid_safe t s" using assms(2) Some [unfolded p] by (rule TO_timer_safe) (simp add: InitialTimeout)
    with assms(2) have c: "timers_inv {} (clearTimer (Some t) s)" by (rule TO_clear_safe)
    from assms(1) Some p InitialTimeout
    have "initialTimeout w t (clearTimer (Some t) s) = Some s'"
      by (simp add: timer_fires_def)
    then show ?thesis using c by (rule TO_initialTimeout)
  next
    case (FallbackTick b)
    with assms(1) Some p have "fallback_tick b s = Some s'"
      by (simp add: timer_fires_def)
    then show ?thesis using assms(2) by (rule TO_fallback_tick)
  next
    case RetryStartService
    have "tid_safe t s" using assms(2) Some [unfolded p] by (rule TO_timer_safe) (simp add: RetryStartService)
    with assms(2) have "timers_inv {} (clearTimer (Some t) s)" by (rule TO_clear_safe)
    then have "timers_inv {} (start ByRetry (clearTimer (Some t) s))" by (rule TO_start)
    with assms(1) Some p RetryStartService show ?thesis
      by (simp add: timer_fires_def retryStartService_def)
  qed
qed

lemma listener_tids_closure:
  assumes "v < length (watchers s)"
  shows "(\<Union>l \<in> set (change_ls (watchers s ! v)). listener_tids l) \<subseteq> closure_tids s"
    and "(\<Union>l \<in> set (error_ls (watchers s ! v)). listener_tids l) \<subseteq> closure_tids s"
proof -
  from assms have "watchers s ! v \<in> set (watchers s)" by simp
  then show "(\<Union>l \<in> set (change_ls (watchers s ! v)). listener_tids l) \<subseteq> closure_tids s"
    and "(\<Union>l \<in> set (error_ls (watchers s ! v)). listener_tids l) \<subseteq> closure_tids s"
    by (auto simp: closure_tids_def watcher_tids_def)
qed

lemma TO_handle:
  assumes h: "handle parse e s = Some s'" and en: "enabled e s" and a: "timers_inv {} s"
  shows "timers_inv {} s'"
proof (cases e)
  case UserStart
  with h a show ?thesis by (auto simp: TO_start)
next
  case UserStop
  with h a show ?thesis by (auto simp: TO_stop)
next
  case (WatcherResponse v time chg)
  define s1 where "s1 = upd_watcher v (\<lambda>x. x\<lparr>updateTime := Some time\<rparr>) s"
  have 1: "timers_inv {} s1" unfolding s1_def using a by (rule TO_upd) simp
  show ?thesis
  proof (cases chg)
    case None
    with h WatcherResponse 1 show ?thesis by (simp add: s1_def)
  next
    case (Some p)
    obtain data response where p: "p = (data, response)" by (cases p)
    define X where "X = (\<Union>l \<in> set (change_ls (watchers s1 ! v)). listener_tids l)"
    from en WatcherResponse have "v < length (watchers s1)" by (simp add: s1_def upd_watcher_def)
    then have "X \<subseteq> closure_tids s1" unfolding X_def by (rule listener_tids_closure)
    with 1 have x: "timers_inv X s1" by (rule TO_widen)
    from h WatcherResponse Some p
    have r: "run_listeners (change_listener parse v data response) (change_ls (watchers s1 ! v)) s1 = Some s'"
      by (simp add: s1_def Let_def)
    have "timers_inv X s'"
    proof (rule TO_run_listeners [OF _ r x])
      show "(\<Union>l \<in> set (change_ls (watchers s1 ! v)). listener_tids l) \<subseteq> X"
        by (simp add: X_def)
    qed (rule TO_change_listener)
    then show ?thesis by (rule TO_narrow)
  qed
next
  case (WatcherError v err final)
  define X where "X = (\<Union>l \<in> set (error_ls (watchers s ! v)). listener_tids l)"
  from en WatcherError have "v < length (watchers s)" by simp
  then have "X \<subseteq> closure_tids s" unfolding X_def by (rule listener_tids_closure)
  with a have x: "timers_inv X s" by (rule TO_widen)
  from h WatcherError obtain s1 where
    r: "run_listeners (error_listener v err) (error_ls (watchers s ! v)) s = Some s1"
    and s': "s' = (if final then watcher_end v s1 else s1)"
    by (auto split: option.splits)
  have "timers_inv X s1"
  proof (rule TO_run_listeners [OF _ r x])
    show "(\<Union>l \<in> set (error_ls (watchers s ! v)). listener_tids l) \<subseteq> X"
      by (simp add: X_def)
  qed (rule TO_error_listener)
  then have "timers_inv {} s1" by (rule TO_narrow)
  then show ?thesis by (simp add: s' TO_watcher_end)
next
  case (TimerFires t)
  with h have "timer_fires t s = Some s'" by simp
  then show ?thesis using a by (rule TO_timer_fires)
next
  case Immediate
  with h a show ?thesis by (auto simp: TO_run_immediate)
qed

lemma TO_step:
  assumes "step parse e s = Some s'" "enabled e s" "timers_inv {} s"
  shows "timers_inv {} s'"
proof -
  from assms(1) obtain s1 where h: "handle parse e s = Some s1" and d: "s' = drain s1"
    by (auto simp: step_def)
  from TO_handle [OF h assms(2,3)] show ?thesis by (simp add: d TO_drain)
qed

lemma TO_init: "timers_inv {} (new_monitor js msec)"
  by (simp add: TO_defs new_monitor_def)

lemma reachable_timers_inv: "reachable parse s \<Longrightarrow> timers_inv {} s"
proof (induction rule: reachable.induct)
  case (init msec js)
  show ?case by (rule TO_init)
next
  case (step s e s')
  from step.hyps(3,2) step.IH show ?case by (rule TO_step)
qed


section \<open>The session invariant\<close>

lemmas SI_defs = session_inv_def session_ok_def init_ok_def cur_alive_def attached_def first_error_on_def

lemma SI_frames [simp]:
  "session_inv (emit n s) = session_inv s"
  "session_inv (setTimer msec task s) = session_inv s"
  "session_inv (clearTimer h s) = session_inv s"
  "session_inv (setImmediate es s) = session_inv s"
  "session_inv (emitFactoryErrors es s) = session_inv s"
  "session_inv (copyHeaders resp s) = session_inv s"
  "session_inv (unsetFallbackToWatchHealthy s) = session_inv s"
  by (simp_all add: SI_defs split: option.splits)

lemma cur_alive_frames [simp]:
  "cur_alive (emit n s) = cur_alive s"
  "cur_alive (setTimer msec task s) = cur_alive s"
  "cur_alive (clearTimer h s) = cur_alive s"
  "cur_alive (setImmediate es s) = cur_alive s"
  "cur_alive (emitFactoryErrors es s) = cur_alive s"
  "cur_alive (copyHeaders resp s) = cur_alive s"
  "cur_alive (unsetFallbackToWatchHealthy s) = cur_alive s"
  "cur_alive (settle w r s) = cur_alive s"
  by (simp_all add: SI_defs split: option.splits)

lemma init_ok_frames [simp]:
  "init_ok (emit n s) = init_ok s"
  "init_ok (setTimer msec task s) = init_ok s"
  "init_ok (clearTimer h s) = init_ok s"
  "init_ok (setImmediate es s) = init_ok s"
  "init_ok (emitFactoryErrors es s) = init_ok s"
  "init_ok (copyHeaders resp s) = init_ok s"
  "init_ok (unsetFallbackToWatchHealthy s) = init_ok s"
  "init_ok (settle w r s) = init_ok s"
  by (simp_all add: SI_defs split: option.splits)

lemma session_ok_frames [simp]:
  "session_ok (emit n s) = session_ok s"
  "session_ok (setTimer msec task s) = session_ok s"
  "session_ok (clearTimer h s) = session_ok s"
  "session_ok (setImmediate es s) = session_ok s"
  "session_ok (emitFactoryErrors es s) = session_ok s"
  "session_ok (copyHeaders resp s) = session_ok s"
  "session_ok (unsetFallbackToWatchHealthy s) = session_ok s"
  by (simp_all add: SI_defs split: option.splits)

lemma core_fields [simp]:
  "session_ok (s\<lparr>isWatchHealthy := b\<rparr>) = session_ok s"
  "session_ok (s\<lparr>consulKvData := d\<rparr>) = session_ok s"
  "session_ok (s\<lparr>jobs := j\<rparr>) = session_ok s"
  "session_ok (s\<lparr>user_results := u\<rparr>) = session_ok s"
  "session_ok (s\<lparr>retryTimer := rt\<rparr>) = session_ok s"
  "session_ok (s\<lparr>initialized := i\<rparr>) = session_ok s"
  "init_ok (s\<lparr>isWatchHealthy := b\<rparr>) = init_ok s"
  "init_ok (s\<lparr>consulKvData := d\<rparr>) = init_ok s"
  "init_ok (s\<lparr>jobs := j\<rparr>) = init_ok s"
  "init_ok (s\<lparr>user_results := u\<rparr>) = init_ok s"
  "init_ok (s\<lparr>retryTimer := rt\<rparr>) = init_ok s"
  "cur_alive (s\<lparr>isWatchHealthy := b\<rparr>) = cur_alive s"
  "cur_alive (s\<lparr>consulKvData := d\<rparr>) = cur_alive s"
  "cur_alive (s\<lparr>jobs := j\<rparr>) = cur_alive s"
  "cur_alive (s\<lparr>user_results := u\<rparr>) = cur_alive s"
  "cur_alive (s\<lparr>retryTimer := rt\<rparr>) = cur_alive s"
  "cur_alive (s\<lparr>initialized := i\<rparr>) = cur_alive s"
  by (simp_all add: SI_defs split: option.splits)

lemma session_ok_alive: "session_ok s \<Longrightarrow> cur_alive s"
  by (auto simp: SI_defs split: option.splits)

text \<open>Updating a watcher.\<close>

lemma nth_upd_watcher:
  "watchers (upd_watcher v f s) ! w =
     (if w = v \<and> v < length (watchers s) then f (watchers s ! v) else watchers s ! w)"
proof (cases "v < length (watchers s)")
  case True
  then show ?thesis by (simp add: upd_watcher_def nth_list_update)
next
  case False
  then have "(watchers s)[v := f (watchers s ! v)] = watchers s"
    by (simp add: not_less list_update_beyond)
  with False show ?thesis by (simp add: upd_watcher_def)
qed

lemma length_upd_watcher [simp]: "length (watchers (upd_watcher v f s)) = length (watchers s)"
  by (simp add: upd_watcher_def)

lemma upd_keeps_core:
  assumes "\<And>x. end_ls (f x) = end_ls x" "\<And>x. ended (f x) = ended x"
  shows "init_ok (upd_watcher v f s) = init_ok s" "cur_alive (upd_watcher v f s) = cur_alive s"
  using assms by (auto simp: SI_defs nth_upd_watcher split: option.splits)

lemma upd_keeps_session:
  assumes "\<And>x. end_ls (f x) = end_ls x" "\<And>x. ended (f x) = ended x"
    "\<And>x. error_ls (f x) = error_ls x"
  shows "session_ok (upd_watcher v f s) = session_ok s"
  using assms by (auto simp: SI_defs nth_upd_watcher split: option.splits)

lemma register_facts:
  "watchKvChange (registerWatcherAndWaitForInitialKvData c s) = Some (length (watchers s))"
  "initialized (registerWatcherAndWaitForInitialKvData c s) = initialized s"
  "jobs (registerWatcherAndWaitForInitialKvData c s) = jobs s"
  "session_ok (registerWatcherAndWaitForInitialKvData c s)"
  by (simp_all add: registerWatcherAndWaitForInitialKvData_def Let_def upd_watcher_def setTimer_def
        new_watcher_def session_ok_def first_error_on_def nth_append)

lemma start_fresh:
  assumes "watchKvChange s = None" "\<not> initialized s"
  shows "session_inv (start c s)" "\<not> initialized (start c s)"
  using assms by (simp_all add: start_def isWatcherRegistered_def register_facts session_inv_def init_ok_def)

lemma SI_start: "session_inv s \<Longrightarrow> session_inv (start c s)"
proof (cases "watchKvChange s")
  case None
  assume "session_inv s"
  with None have "\<not> initialized s" by (auto simp: session_inv_def init_ok_def)
  with None show ?thesis by (rule start_fresh)
next
  case (Some w)
  assume "session_inv s"
  with Some show ?thesis by (simp add: start_def isWatcherRegistered_def session_inv_def)
qed

lemma onWatcherEnd_facts: "session_inv (onWatcherEnd s)" "\<not> initialized (onWatcherEnd s)"
  by (simp_all add: onWatcherEnd_def Let_def retryStartService_def start_fresh)

lemma fold_end_none: "OnWatcherEnd \<notin> set ls \<Longrightarrow> fold end_listener ls s = s"
  by (induction ls arbitrary: s) (auto simp: end_listener_def)

lemma fold_end_some:
  "OnWatcherEnd \<in> set ls \<Longrightarrow>
     session_inv (fold end_listener ls s) \<and> \<not> initialized (fold end_listener ls s)"
proof (induction ls arbitrary: s)
  case Nil
  then show ?case by simp
next
  case (Cons l ls)
  show ?case
  proof (cases "OnWatcherEnd \<in> set ls")
    case True
    from Cons.IH [OF True] show ?thesis by simp
  next
    case False
    with Cons.prems have "l = OnWatcherEnd" by simp
    then have "end_listener l s = onWatcherEnd s" by (simp add: end_listener_def)
    with fold_end_none [OF False] show ?thesis
      by (simp add: onWatcherEnd_facts)
  qed
qed

lemma upd_other:
  assumes "watchKvChange s \<noteq> Some v"
  shows "session_ok (upd_watcher v f s) = session_ok s" "init_ok (upd_watcher v f s) = init_ok s"
  using assms by (auto simp: SI_defs nth_upd_watcher split: option.splits)

lemma watcher_end_cur:
  assumes i: "init_ok s" and a: "cur_alive s" and c: "watchKvChange s = Some cur"
  shows "\<not> initialized (watcher_end cur s)"
proof -
  from a c have ne: "\<not> ended (watchers s ! cur)" by (simp add: cur_alive_def)
  show ?thesis
  proof (cases "OnWatcherEnd \<in> set (end_ls (watchers s ! cur))")
    case True
    from fold_end_some [OF True] ne show ?thesis by (simp add: watcher_end_def)
  next
    case False
    with i c have "\<not> initialized s" by (auto simp: init_ok_def attached_def)
    with False ne show ?thesis by (simp add: watcher_end_def fold_end_none)
  qed
qed

lemma SI_watcher_end:
  assumes p: "session_inv s" and at: "watchKvChange s = Some v \<longrightarrow> attached v s"
  shows "session_inv (watcher_end v s)"
proof (cases "ended (watchers s ! v)")
  case True
  with p show ?thesis by (simp add: watcher_end_def)
next
  case ne: False
  show ?thesis
  proof (cases "OnWatcherEnd \<in> set (end_ls (watchers s ! v))")
    case True
    from fold_end_some [OF True] ne show ?thesis by (simp add: watcher_end_def)
  next
    case False
    with at have "watchKvChange s \<noteq> Some v" by (auto simp: attached_def)
    with p have "session_inv (upd_watcher v (\<lambda>x. x\<lparr>ended := True\<rparr>) s)"
      by (simp add: session_inv_def upd_other)
    with False ne show ?thesis by (simp add: watcher_end_def fold_end_none)
  qed
qed

lemma SI_null: "\<not> initialized s \<Longrightarrow> session_inv (s\<lparr>watchKvChange := None\<rparr>)"
  by (simp add: SI_defs)

lemma SI_stop: "session_inv s \<Longrightarrow> session_inv (stop s)"
  by (auto simp: stop_def Let_def SI_defs split: option.splits)

lemma settle_facts [simp]:
  "watchKvChange (settle w r s) = watchKvChange s"
  "watchers (settle w r s) = watchers s"
  "initialized (settle w r s) = initialized s"
  by simp_all

lemma SI_firstError:
  assumes f: "firstError w t err s = Some s'" and i: "init_ok s" and a: "cur_alive s"
  shows "session_inv s'"
proof -
  from f obtain cur where c: "watchKvChange s = Some cur"
    by (auto simp: firstError_def split: option.splits)
  define s1 where "s1 = upd_watcher cur (\<lambda>x. x\<lparr>change_ls := removeListener (FirstChange w t) (change_ls x)\<rparr>) s"
  have i1: "init_ok s1" and a1: "cur_alive s1"
    using i a by (simp_all add: s1_def upd_keeps_core)
  have c1: "watchKvChange s1 = Some cur" using c by (simp add: s1_def)
  from watcher_end_cur [OF i1 a1 c1] have n: "\<not> initialized (watcher_end cur s1)" .
  from f c have s': "s' = settle w (Inl (KvError WatchError err (ExErr err)))
                        (clearTimer (Some t) ((watcher_end cur s1)\<lparr>watchKvChange := None\<rparr>))"
    by (simp add: firstError_def Let_def s1_def)
  show ?thesis using n by (simp add: s' SI_defs)
qed

lemma SI_initialTimeout:
  assumes f: "initialTimeout w t s = Some s'" and i: "init_ok s" and a: "cur_alive s"
  shows "session_inv s'"
proof -
  from f obtain cur where c: "watchKvChange s = Some cur"
    by (auto simp: initialTimeout_def split: option.splits)
  define s1 where "s1 = upd_watcher cur (\<lambda>x. x\<lparr>error_ls := removeListener (FirstError w t) (error_ls x)\<rparr>) s"
  define s2 where "s2 = upd_watcher cur (\<lambda>x. x\<lparr>change_ls := removeListener (FirstChange w t) (change_ls x)\<rparr>) s1"
  have i2: "init_ok s2" and a2: "cur_alive s2"
    using i a by (simp_all add: s2_def s1_def upd_keeps_core)
  have c2: "watchKvChange s2 = Some cur" using c by (simp add: s2_def s1_def)
  from watcher_end_cur [OF i2 a2 c2] have n: "\<not> initialized (watcher_end cur s2)" .
  from f c have s': "s' = settle w (Inl (KvError WatchTimeoutError
                      ''Initial consul watch request was timed out'' NoExtra))
                        ((watcher_end cur s2)\<lparr>watchKvChange := None\<rparr>)"
    by (simp add: initialTimeout_def Let_def s1_def s2_def)
  show ?thesis using n by (simp add: s' SI_defs)
qed

lemma list_ex_removeListener:
  assumes "list_ex P ls" "\<not> P l"
  shows "list_ex P (removeListener l ls)"
proof -
  from assms obtain x where x: "x \<in> set ls" "P x" "x \<noteq> l" by (auto simp: list_ex_iff)
  then have "x \<in> set (remove1 l (rev ls))" by (simp add: in_set_remove1)
  with x(2) show ?thesis by (auto simp: list_ex_iff removeListener_def)
qed

lemma map_of_filter_other:
  "k \<noteq> w \<Longrightarrow> map_of (filter (\<lambda>x. fst x \<noteq> w) p) k = map_of p k"
  by (induction p) auto

lemma pending_settle_other:
  "cur \<noteq> w \<Longrightarrow> map_of (pending (settle w r s)) cur = map_of (pending s) cur"
  by (simp add: settle_def map_of_filter_other split: option.splits)

lemma jobs_settle_pending:
  "map_of (pending s) w \<noteq> None \<Longrightarrow> list_ex is_fulfilled (jobs (settle w (Inr kv) s))"
  by (auto simp: settle_def)

lemma jobs_settle_mono:
  "list_ex is_fulfilled (jobs s) \<Longrightarrow> list_ex is_fulfilled (jobs (settle w r s))"
  by (auto simp: settle_def split: option.splits)

lemma SI_mid: "session_inv s \<Longrightarrow> mid_ok js s"
  by (simp add: mid_ok_def session_inv_def session_ok_alive)

lemma core_cong:
  assumes "watchKvChange s' = watchKvChange s" "watchers s' = watchers s" "initialized s' = initialized s"
  shows "init_ok s' = init_ok s" "cur_alive s' = cur_alive s"
  using assms by (simp_all add: init_ok_def cur_alive_def attached_def split: option.splits)

lemma mid_firstChange:
  assumes f: "firstChange parse w t data response s = Some s'" and m: "mid_ok (jobs s) s"
  shows "mid_ok (jobs s') s'"
proof -
  from f obtain cur where c: "watchKvChange s = Some cur"
    by (auto simp: firstChange_def split: option.splits)
  define s1 where "s1 = upd_watcher cur (\<lambda>x. x\<lparr>error_ls := removeListener (FirstError w t) (error_ls x)\<rparr>) s"
  define kv where "kv = fst (buildConsulKvData parse data (json_option s))"
  define s4 where "s4 = (let s2 = clearTimer (Some t) s1;
               built = buildConsulKvData parse data (json_option s2);
               s3 = copyHeaders response s2
           in if snd built \<noteq> [] then emitFactoryErrors (snd built) s3 else s3)"
  from f c have s': "s' = settle w (Inr kv) s4"
    by (simp add: firstChange_def Let_def s1_def s4_def kv_def upd_watcher_def)
  have core4: "watchKvChange s4 = Some cur" "watchers s4 = watchers s1" "pending s4 = pending s"
    "jobs s4 = jobs s" "initialized s4 = initialized s"
    using c by (simp_all add: s4_def Let_def s1_def)
  from m have i: "init_ok s" and a: "cur_alive s" by (simp_all add: mid_ok_def)
  have i1: "init_ok s1" and a1: "cur_alive s1"
    using i a by (simp_all add: s1_def upd_keeps_core)
  have e: "watchKvChange s4 = watchKvChange s1" "initialized s4 = initialized s1"
    using core4 c by (simp_all add: s1_def)
  have i': "init_ok s'" using i1 core_cong(1) [OF e(1) core4(2) e(2)]
    by (simp add: s')
  have a': "cur_alive s'" using a1 core_cong(2) [OF e(1) core4(2) e(2)]
    by (simp add: s')
  have lt: "cur < length (watchers s)" and ne: "\<not> ended (watchers s ! cur)"
    using a c by (simp_all add: cur_alive_def)
  have l1: "length (watchers s1) = length (watchers s)" by (simp add: s1_def)
  have w1: "watchers s1 ! cur = (watchers s ! cur)\<lparr>error_ls := removeListener (FirstError w t) (error_ls (watchers s ! cur))\<rparr>"
    using lt by (simp add: s1_def nth_upd_watcher)
  have third: "session_ok s' \<or> list_ex is_fulfilled (jobs s')"
  proof (cases "list_ex is_fulfilled (jobs s)")
    case True
    then have "list_ex is_fulfilled (jobs s')"
      unfolding s' using core4(4) jobs_settle_mono [of s4 w "Inr kv"] by simp
    then show ?thesis ..
  next
    case False
    with m have so: "session_ok s" by (simp add: mid_ok_def)
    show ?thesis
    proof (cases "attached cur s")
      case True
      then have "session_ok s'"
        using c core4 lt ne w1 l1 by (simp add: s' session_ok_def attached_def)
      then show ?thesis ..
    next
      case na: False
      with so c have fe: "first_error_on cur s" and pe: "map_of (pending s) cur \<noteq> None"
        by (simp_all add: session_ok_def)
      show ?thesis
      proof (cases "w = cur")
        case True
        with pe core4(3) have "map_of (pending s4) w \<noteq> None" by simp
        then have "list_ex is_fulfilled (jobs s')" unfolding s' by (rule jobs_settle_pending)
        then show ?thesis ..
      next
        case False
        from fe have "list_ex (is_first_error_of cur) (error_ls (watchers s ! cur))"
          by (simp add: first_error_on_def)
        then have "list_ex (is_first_error_of cur) (removeListener (FirstError w t) (error_ls (watchers s ! cur)))"
          by (rule list_ex_removeListener) (use False in simp)
        then have fe': "first_error_on cur s'"
          using w1 core4(2) by (simp add: first_error_on_def s')
        have pe': "map_of (pending s') cur \<noteq> None"
          using pe core4(3) False pending_settle_other [of cur w "Inr kv" s4] by (simp add: s')
        have "session_ok s'"
          using c core4 lt ne w1 l1 fe' pe' by (simp add: s' session_ok_def)
        then show ?thesis ..
      qed
    qed
  qed
  with i' a' show ?thesis by (simp add: mid_ok_def)
qed

lemma mid_onWatcherChange:
  "mid_ok (jobs s) s \<Longrightarrow> mid_ok (jobs (onWatcherChange parse data response s)) (onWatcherChange parse data response s)"
  by (simp add: onWatcherChange_def Let_def mid_ok_def)

lemma mid_change_listener:
  assumes "change_listener parse v data response l s = Some s'" "mid_ok (jobs s) s"
  shows "mid_ok (jobs s') s'"
proof (cases l)
  case (FirstChange w t)
  define s0 where "s0 = upd_watcher v (\<lambda>x. x\<lparr>change_ls := remove1 (FirstChange w t) (change_ls x)\<rparr>) s"
  have "mid_ok (jobs s0) s0"
    using assms(2) by (simp add: mid_ok_def s0_def upd_keeps_core upd_keeps_session)
  moreover from assms(1) FirstChange have "firstChange parse w t data response s0 = Some s'"
    by (simp add: s0_def)
  ultimately show ?thesis using mid_firstChange by blast
next
  case OnWatcherChange
  with assms show ?thesis by (auto simp: mid_onWatcherChange)
qed (use assms in auto)

lemma mid_run_change:
  "run_listeners (change_listener parse v data response) ls s = Some s' \<Longrightarrow> mid_ok (jobs s) s \<Longrightarrow>
     mid_ok (jobs s') s'"
proof (induction ls arbitrary: s)
  case Nil
  then show ?case by simp
next
  case (Cons l ls)
  from Cons.prems(1) obtain s1 where 1: "change_listener parse v data response l s = Some s1"
    and 2: "run_listeners (change_listener parse v data response) ls s1 = Some s'"
    by (auto split: option.splits)
  from mid_change_listener [OF 1 Cons.prems(2)] have "mid_ok (jobs s1) s1" .
  from Cons.IH [OF 2 this] show ?case .
qed

lemma attach_facts:
  "watchKvChange (attachHandlers w s) = watchKvChange s"
  "initialized (attachHandlers w s) = initialized s"
  "pending (attachHandlers w s) = pending s"
  "jobs (attachHandlers w s) = jobs s"
  "length (watchers (attachHandlers w s)) = length (watchers s)"
  by (simp_all add: attachHandlers_def)

lemma attach_nth:
  "w < length (watchers s) \<Longrightarrow>
     watchers (attachHandlers w s) ! w =
       (watchers s ! w)\<lparr>change_ls := change_ls (watchers s ! w) @ [OnWatcherChange],
                          error_ls := error_ls (watchers s ! w) @ [OnWatcherError],
                          end_ls := end_ls (watchers s ! w) @ [OnWatcherEnd]\<rparr>"
  by (simp add: attachHandlers_def nth_upd_watcher)

lemma mid_run_job:
  assumes m: "mid_ok (j # js) s"
  shows "mid_ok js (run_job j s)"
proof (cases "\<exists>c kv. j = StartSettled c (Inr kv)")
  case True
  then obtain c kv where j: "j = StartSettled c (Inr kv)" by blast
  from m have i: "init_ok s" and a: "cur_alive s" by (simp_all add: mid_ok_def)
  show ?thesis
  proof (cases "watchKvChange s")
    case None
    with i a show ?thesis by (auto simp: j mid_ok_def SI_defs split: if_splits)
  next
    case (Some w)
    with a have lt: "w < length (watchers s)" and ne: "\<not> ended (watchers s ! w)"
      by (simp_all add: cur_alive_def)
    from Some lt ne show ?thesis
      by (simp add: j mid_ok_def SI_defs attach_facts attach_nth Let_def)
  qed
next
  case False
  then have nf: "\<not> is_fulfilled j" by (cases j rule: is_fulfilled.cases) auto
  have core: "init_ok (run_job j s) = init_ok s" "cur_alive (run_job j s) = cur_alive s"
    "session_ok (run_job j s) = session_ok s"
    using False by (induction j s rule: run_job.induct) (simp_all add: Let_def)
  from m nf show ?thesis by (simp add: mid_ok_def core)
qed

lemma mid_fold_jobs: "mid_ok js s \<Longrightarrow> session_inv (fold run_job js s)"
proof (induction js arbitrary: s)
  case Nil
  then show ?case by (simp add: mid_ok_def session_inv_def)
next
  case (Cons j js)
  from mid_run_job [OF Cons.prems] have "mid_ok js (run_job j s)" .
  from Cons.IH [OF this] show ?case by simp
qed

lemma mid_run_jobs: "mid_ok (jobs s) s \<Longrightarrow> session_inv (run_jobs s)"
  unfolding run_jobs_def by (rule mid_fold_jobs) (simp add: mid_ok_def)

lemma mid_drain:
  assumes "mid_ok (jobs s) s"
  shows "session_inv (drain s)"
proof -
  from assms have "session_inv (run_jobs s)" by (rule mid_run_jobs)
  then have "mid_ok (jobs (run_jobs s)) (run_jobs s)" by (rule SI_mid)
  then show ?thesis unfolding drain_def by (rule mid_run_jobs)
qed

lemma SI_drain: "session_inv s \<Longrightarrow> session_inv (drain s)"
  by (intro mid_drain SI_mid)

text \<open>The job queue is empty after every turn.\<close>

lemma run_job_await:
  assumes "\<forall>x \<in> set (jobs s). \<exists>c r. x = AwaitStart c r"
  shows "\<forall>x \<in> set (jobs (run_job j s)). \<exists>c r. x = AwaitStart c r"
  using assms by (induction j s rule: run_job.induct) (auto simp: Let_def attach_facts split: option.splits)

lemma fold_job_await:
  "\<forall>x \<in> set (jobs s). \<exists>c r. x = AwaitStart c r \<Longrightarrow>
     \<forall>x \<in> set (jobs (fold run_job js s)). \<exists>c r. x = AwaitStart c r"
proof (induction js arbitrary: s)
  case Nil
  then show ?case by simp
next
  case (Cons j js)
  from run_job_await [OF Cons.prems] have "\<forall>x \<in> set (jobs (run_job j s)). \<exists>c r. x = AwaitStart c r" .
  from Cons.IH [OF this] show ?case by simp
qed

lemma run_job_await_jobs: "jobs (run_job (AwaitStart c r) s) = jobs s"
  by (cases c; cases r) (simp_all add: Let_def)

lemma fold_await_jobs:
  "\<forall>x \<in> set js. \<exists>c r. x = AwaitStart c r \<Longrightarrow> jobs (fold run_job js s) = jobs s"
proof (induction js arbitrary: s)
  case Nil
  then show ?case by simp
next
  case (Cons j js)
  from Cons.prems obtain c r where j: "j = AwaitStart c r" by auto
  from Cons.prems have "\<forall>x \<in> set js. \<exists>c r. x = AwaitStart c r" by simp
  from Cons.IH [OF this] show ?case by (simp add: j run_job_await_jobs)
qed

lemma jobs_drain: "jobs (drain s) = []"
proof -
  have "\<forall>x \<in> set (jobs (run_jobs s)). \<exists>c r. x = AwaitStart c r"
    unfolding run_jobs_def by (rule fold_job_await) simp
  then have "jobs (fold run_job (jobs (run_jobs s)) ((run_jobs s)\<lparr>jobs := []\<rparr>)) =
             jobs ((run_jobs s)\<lparr>jobs := []\<rparr>)"
    by (rule fold_await_jobs)
  then show ?thesis by (simp add: drain_def run_jobs_def)
qed

lemma firstError_null: "firstError w t err s = Some s' \<Longrightarrow> watchKvChange s' = None"
  by (auto simp: firstError_def Let_def split: option.splits)

lemma session_cong:
  assumes "watchKvChange s' = watchKvChange s" "watchers s' = watchers s"
    "initialized s' = initialized s" "pending s' = pending s"
  shows "session_inv s' = session_inv s"
  using assms by (simp add: SI_defs split: option.splits)

lemma setFallback_core:
  assumes "setFallbackToWatchHealthy s = Some s'"
  shows "watchKvChange s' = watchKvChange s" "watchers s' = watchers s"
    "initialized s' = initialized s" "pending s' = pending s"
  using assms by (auto simp: setFallbackToWatchHealthy_def Let_def split: option.splits if_splits)

lemma onWatcherError_core:
  assumes "onWatcherError err s = Some s'"
  shows "watchKvChange s' = watchKvChange s" "watchers s' = watchers s"
    "initialized s' = initialized s" "pending s' = pending s"
proof -
  define s2 where "s2 = (let s1 = unsetFallbackToWatchHealthy s in
     if isWatchHealthy s1 then emit Unhealthy (s1\<lparr>isWatchHealthy := False\<rparr>) else s1)"
  from assms obtain s3 where 3: "setFallbackToWatchHealthy s2 = Some s3"
    and s': "s' = emit (Error (KvError WatchError err (ExErr err))) s3"
    by (auto simp: onWatcherError_def Let_def s2_def split: option.splits)
  have c2: "watchKvChange s2 = watchKvChange s" "watchers s2 = watchers s"
    "initialized s2 = initialized s" "pending s2 = pending s"
    by (simp_all add: s2_def Let_def)
  from setFallback_core [OF 3] c2
  show "watchKvChange s' = watchKvChange s" "watchers s' = watchers s"
    "initialized s' = initialized s" "pending s' = pending s"
    by (simp_all add: s')
qed

lemma fallback_tick_core:
  assumes "fallback_tick b s = Some s'"
  shows "watchKvChange s' = watchKvChange s" "watchers s' = watchers s"
    "initialized s' = initialized s" "pending s' = pending s"
  using assms by (auto simp: fallback_tick_def split: option.splits if_splits)

text \<open>
  While an \<open>error\<close> of the watcher \<open>v\<close> is being delivered: if the monitor still holds
  \<open>v\<close> without its \<open>end\<close> handler, a \<open>firstError\<close> of \<open>v\<close> is yet to run.
\<close>

lemma error_listener_step:
  assumes e: "error_listener v err l s = Some s1" and p: "session_inv s"
    and k: "watchKvChange s = Some v \<and> \<not> attached v s \<longrightarrow> list_ex (is_first_error_of v) (l # ls)"
  shows "session_inv s1 \<and>
         (watchKvChange s1 = Some v \<and> \<not> attached v s1 \<longrightarrow> list_ex (is_first_error_of v) ls)"
proof (cases l)
  case (FirstError w t)
  define s0 where "s0 = upd_watcher v (\<lambda>x. x\<lparr>error_ls := remove1 (FirstError w t) (error_ls x)\<rparr>) s"
  from p have "init_ok s" "cur_alive s" by (simp_all add: session_inv_def session_ok_alive)
  then have i0: "init_ok s0" and a0: "cur_alive s0" by (simp_all add: s0_def upd_keeps_core)
  from e FirstError have f: "firstError w t err s0 = Some s1" by (simp add: s0_def)
  from SI_firstError [OF f i0 a0] firstError_null [OF f] show ?thesis by simp
next
  case OnWatcherError
  with e have o: "onWatcherError err s = Some s1" by simp
  from onWatcherError_core [OF o] have c: "watchKvChange s1 = watchKvChange s" "watchers s1 = watchers s"
    "initialized s1 = initialized s" "pending s1 = pending s" .
  from session_cong [OF c] p have "session_inv s1" by simp
  moreover have "attached v s1 = attached v s" by (simp add: attached_def c)
  ultimately show ?thesis using k c OnWatcherError by simp
next
  case (FirstChange w t)
  with e p k show ?thesis by auto
next
  case OnWatcherChange
  with e p k show ?thesis by auto
next
  case OnWatcherEnd
  with e p k show ?thesis by auto
qed

lemma error_run:
  "run_listeners (error_listener v err) ls s = Some s' \<Longrightarrow> session_inv s \<Longrightarrow>
     (watchKvChange s = Some v \<and> \<not> attached v s \<longrightarrow> list_ex (is_first_error_of v) ls) \<Longrightarrow>
     session_inv s' \<and> (watchKvChange s' = Some v \<longrightarrow> attached v s')"
proof (induction ls arbitrary: s)
  case Nil
  then show ?case by auto
next
  case (Cons l ls)
  from Cons.prems(1) obtain s1 where 1: "error_listener v err l s = Some s1"
    and 2: "run_listeners (error_listener v err) ls s1 = Some s'"
    by (auto split: option.splits)
  from error_listener_step [OF 1 Cons.prems(2,3)]
  have a: "session_inv s1"
    and b: "watchKvChange s1 = Some v \<and> \<not> attached v s1 \<longrightarrow> list_ex (is_first_error_of v) ls"
    by simp_all
  from Cons.IH [OF 2 a b] show ?case .
qed

lemma SI_timer_fires:
  assumes f: "timer_fires t s = Some s'" and p: "session_inv s"
  shows "session_inv s'"
proof (cases "map_of (timers s) t")
  case None
  with f p show ?thesis by (simp add: timer_fires_def)
next
  case (Some q)
  obtain msec task where q: "q = (msec, task)" by (cases q)
  show ?thesis
  proof (cases task)
    case (InitialTimeout w)
    from p have "init_ok (clearTimer (Some t) s)" "cur_alive (clearTimer (Some t) s)"
      by (simp_all add: session_inv_def session_ok_alive)
    moreover from f Some q InitialTimeout
    have "initialTimeout w t (clearTimer (Some t) s) = Some s'"
      by (simp add: timer_fires_def)
    ultimately show ?thesis using SI_initialTimeout by blast
  next
    case (FallbackTick b)
    with f Some q have "fallback_tick b s = Some s'" by (simp add: timer_fires_def)
    from session_cong [OF fallback_tick_core [OF this]] p show ?thesis by simp
  next
    case RetryStartService
    from p have "session_inv (start ByRetry (clearTimer (Some t) s))"
      by (intro SI_start) simp
    with f Some q RetryStartService show ?thesis
      by (simp add: timer_fires_def retryStartService_def)
  qed
qed

lemma SI_fold_emit: "session_inv (fold (\<lambda>error. emit (Error error)) es s) = session_inv s"
  by (induction es arbitrary: s) simp_all

lemma SI_immediates [simp]: "session_inv (s\<lparr>immediates := i\<rparr>) = session_inv s"
  by (simp add: SI_defs split: option.splits)

lemma SI_run_immediate: "session_inv s \<Longrightarrow> session_inv (run_immediate s)"
  by (simp add: run_immediate_def SI_fold_emit split: list.splits)

lemma SI_step:
  assumes st: "step parse e s = Some s'" and en: "enabled e s" and p: "session_inv s"
  shows "session_inv s'"
proof -
  from st obtain s1 where h: "handle parse e s = Some s1" and d: "s' = drain s1"
    by (auto simp: step_def)
  show ?thesis
  proof (cases e)
    case UserStart
    with h p have "session_inv s1" by (auto simp: SI_start)
    then show ?thesis unfolding d by (rule SI_drain)
  next
    case UserStop
    with h p have "session_inv s1" by (auto simp: SI_stop)
    then show ?thesis unfolding d by (rule SI_drain)
  next
    case (WatcherResponse v time chg)
    define s0 where "s0 = upd_watcher v (\<lambda>x. x\<lparr>updateTime := Some time\<rparr>) s"
    from p have p0: "session_inv s0"
      by (simp add: session_inv_def s0_def upd_keeps_core upd_keeps_session)
    show ?thesis
    proof (cases chg)
      case None
      with h WatcherResponse have "s1 = s0" by (simp add: s0_def)
      with p0 show ?thesis unfolding d by (simp add: SI_drain)
    next
      case (Some q)
      obtain data response where q: "q = (data, response)" by (cases q)
      from h WatcherResponse Some q
      have r: "run_listeners (change_listener parse v data response) (change_ls (watchers s0 ! v)) s0 = Some s1"
        by (simp add: s0_def Let_def)
      from p0 have "mid_ok (jobs s0) s0" by (rule SI_mid)
      from mid_run_change [OF r this] show ?thesis unfolding d by (rule mid_drain)
    qed
  next
    case (WatcherError v err final)
    from h WatcherError obtain s2 where
      r: "run_listeners (error_listener v err) (error_ls (watchers s ! v)) s = Some s2"
      and s1: "s1 = (if final then watcher_end v s2 else s2)"
      by (auto split: option.splits)
    have k: "watchKvChange s = Some v \<and> \<not> attached v s \<longrightarrow>
               list_ex (is_first_error_of v) (error_ls (watchers s ! v))"
      using p by (auto simp: session_inv_def session_ok_def first_error_on_def)
    from error_run [OF r p k] have a: "session_inv s2" and b: "watchKvChange s2 = Some v \<longrightarrow> attached v s2"
      by simp_all
    have "session_inv s1"
      using a SI_watcher_end [OF a b] by (simp add: s1)
    then show ?thesis unfolding d by (rule SI_drain)
  next
    case (TimerFires t)
    with h have "timer_fires t s = Some s1" by simp
    from SI_timer_fires [OF this p] show ?thesis unfolding d by (rule SI_drain)
  next
    case Immediate
    with h p have "session_inv s1" by (auto simp: SI_run_immediate)
    then show ?thesis unfolding d by (rule SI_drain)
  qed
qed

lemma SI_init: "session_inv (new_monitor js msec)"
  by (simp add: SI_defs new_monitor_def)

lemma reachable_session_inv: "reachable parse s \<Longrightarrow> session_inv s"
proof (induction rule: reachable.induct)
  case (init msec js)
  show ?case by (rule SI_init)
next
  case (step s e s')
  from step.hyps(3,2) step.IH show ?case by (rule SI_step)
qed

lemma reachable_jobs: "reachable parse s \<Longrightarrow> jobs s = []"
  by (induction rule: reachable.induct) (auto simp: new_monitor_def step_def jobs_drain)


section \<open>Properties of the monitor\<close>

lemma reachable_run:
  "reachable parse s \<Longrightarrow> run parse es s = Some s' \<Longrightarrow> reachable parse s'"
proof (induction es arbitrary: s)
  case Nil
  then show ?case by simp
next
  case (Cons e es)
  from Cons.prems(2) obtain s1 where en: "enabled e s" and st: "step parse e s = Some s1"
    and r: "run parse es s1 = Some s'"
    by (auto split: if_splits option.splits)
  from Cons.prems(1) en st have "reachable parse s1" by (rule reachable.step)
  from Cons.IH [OF this r] show ?case .
qed

lemma reachable_after:
  "run json_parse_sample es (new_monitor False 500) \<noteq> None \<Longrightarrow> reachable json_parse_sample (after es)"
proof -
  assume "run json_parse_sample es (new_monitor False 500) \<noteq> None"
  then have r: "run json_parse_sample es (new_monitor False 500) = Some (after es)"
    by (auto simp: after_def)
  have "reachable json_parse_sample (new_monitor False 500)" by (rule reachable.init) simp
  from reachable_run [OF this r] show ?thesis .
qed

lemma run_jobs_id: "jobs s = [] \<Longrightarrow> run_jobs s = s"
  by (simp add: run_jobs_def)

lemma drain_id: "jobs s = [] \<Longrightarrow> drain s = s"
  by (simp add: drain_def run_jobs_id)

lemma fold_emit: "fold (\<lambda>error. emit (Error error)) es s = s\<lparr>emitted := emitted s @ map Error es\<rparr>"
  by (induction es arbitrary: s) (simp_all add: emit_def)

lemma run_immediate_eq:
  "immediates s = es # rest \<Longrightarrow>
     run_immediate s = s\<lparr>immediates := rest, emitted := emitted s @ map Error es\<rparr>"
  by (simp add: run_immediate_def fold_emit)



text \<open>
  Claim C5.  The change handler makes the rebuilt snapshot the current data, copies the
  three headers, sets the monitor healthy, and emits \<open>healthy\<close> (only when it was unhealthy)
  and then \<open>changed\<close> with the new snapshot; it emits nothing else.  The diagnostics of the
  build, when there are any, are queued with \<open>setImmediate\<close> behind what was queued before;
  when that callback runs it emits them as \<open>error\<close> notifications in their order.
\<close>

theorem onWatcherChange_spec:
  "onWatcherChange parse data response s =
     s\<lparr>isWatchHealthy := True,
       consulKvData := fst (buildConsulKvData parse data (json_option s)),
       consulHeaders := consulHeaders (copyHeaders response s),
       emitted := emitted s @ (if isWatchHealthy s then [] else [Healthy]) @
                  [Changed (fst (buildConsulKvData parse data (json_option s)))],
       immediates := immediates s @
          (if snd (buildConsulKvData parse data (json_option s)) = [] then []
           else [snd (buildConsulKvData parse data (json_option s))])\<rparr>
   \<and> (immediates s = [] \<and> snd (buildConsulKvData parse data (json_option s)) \<noteq> [] \<longrightarrow>
        emitted (run_immediate (onWatcherChange parse data response s)) =
          emitted (onWatcherChange parse data response s) @
          map Error (snd (buildConsulKvData parse data (json_option s))))
   \<and> (\<forall>u es rest. immediates u = es # rest \<longrightarrow>
          run_immediate u = u\<lparr>immediates := rest, emitted := emitted u @ map Error es\<rparr>)"
proof -
  have 1: "onWatcherChange parse data response s =
     s\<lparr>isWatchHealthy := True,
       consulKvData := fst (buildConsulKvData parse data (json_option s)),
       consulHeaders := consulHeaders (copyHeaders response s),
       emitted := emitted s @ (if isWatchHealthy s then [] else [Healthy]) @
                  [Changed (fst (buildConsulKvData parse data (json_option s)))],
       immediates := immediates s @
          (if snd (buildConsulKvData parse data (json_option s)) = [] then []
           else [snd (buildConsulKvData parse data (json_option s))])\<rparr>"
    by (simp add: onWatcherChange_def Let_def emit_def emitFactoryErrors_def setImmediate_def
          copyHeaders_def)
  have 2: "emitted (run_immediate (onWatcherChange parse data response s)) =
          emitted (onWatcherChange parse data response s) @
          map Error (snd (buildConsulKvData parse data (json_option s)))"
    if "immediates s = []" "snd (buildConsulKvData parse data (json_option s)) \<noteq> []"
  proof -
    from that have "immediates (onWatcherChange parse data response s) =
        snd (buildConsulKvData parse data (json_option s)) # []"
      by (subst 1) simp
    from run_immediate_eq [OF this] show ?thesis by simp
  qed
  from 1 2 run_immediate_eq show ?thesis by blast
qed

theorem onWatcherChange_spec_witness:
  "\<not> isWatchHealthy (after events_unhealthy) \<and> immediates (after events_unhealthy) = []
   \<and> snd (buildConsulKvData json_parse_sample mixed_batch (json_option (after events_unhealthy))) \<noteq> []
   \<and> emitted (onWatcherChange json_parse_sample mixed_batch sample_response (after events_unhealthy)) =
       emitted (after events_unhealthy) @
       [Healthy, Changed (fst (buildConsulKvData json_parse_sample mixed_batch False))]
   \<and> emitted (run_immediate
         (onWatcherChange json_parse_sample mixed_batch sample_response (after events_unhealthy))) =
       emitted (after events_unhealthy) @
       [Healthy, Changed (fst (buildConsulKvData json_parse_sample mixed_batch False)),
        Error (record_diagnostic (JNum 7))]"
proof -
  have h: "\<not> isWatchHealthy (after events_unhealthy)" by code_simp
  have i: "immediates (after events_unhealthy) = []" by code_simp
  have j: "json_option (after events_unhealthy) = False" by code_simp
  have e: "snd (buildConsulKvData json_parse_sample mixed_batch False) = [record_diagnostic (JNum 7)]"
    by code_simp
  from onWatcherChange_spec [of json_parse_sample mixed_batch sample_response "after events_unhealthy"]
    h i j e
  show ?thesis by simp
qed

text \<open>
  With a watcher registered, the error handler first cancels the fallback interval the
  monitor holds; it turns the monitor unhealthy and emits \<open>unhealthy\<close> exactly when the
  monitor was healthy; it starts a new fallback interval of 1000 ms whose baseline is the
  watcher's update time; last it emits one \<open>error\<close> that wraps the cause.
\<close>

lemma onWatcherError_with_watcher:
  "watchKvChange s = Some w \<Longrightarrow>
   onWatcherError err s =
     Some (s\<lparr>isWatchHealthy := False,
             timers := filter (\<lambda>x. Some (fst x) \<noteq> fallbackToWatchHealthyInterval s) (timers s) @
                       [(next_timer s, 1000, FallbackTick (updateTime (watchers s ! w)))],
             next_timer := Suc (next_timer s),
             fallbackToWatchHealthyInterval := Some (next_timer s),
             emitted := emitted s @ (if isWatchHealthy s then [Unhealthy] else []) @
                        [Error (KvError WatchError err (ExErr err))]\<rparr>)"
  by (cases "fallbackToWatchHealthyInterval s")
     (simp_all add: onWatcherError_def setFallbackToWatchHealthy_def unsetFallbackToWatchHealthy_def
        clearTimer_def setTimer_def emit_def Let_def HEALTH_FALLBACK_INTERVAL_MSEC_def)

lemma onWatcherError_with_watcher_example:
  "watchKvChange (after events_started) = Some 0
   \<and> map_option emitted (onWatcherError ''connect ECONNREFUSED'' (after events_started)) =
       Some [Unhealthy, Error (KvError WatchError ''connect ECONNREFUSED'' (ExErr ''connect ECONNREFUSED''))]
   \<and> map_option timers (onWatcherError ''connect ECONNREFUSED'' (after events_started)) =
       Some [(1, 1000, FallbackTick (Some 10))]"
proof -
  have w: "watchKvChange (after events_started) = Some 0" by code_simp
  have f: "fallbackToWatchHealthyInterval (after events_started) = None"
    "timers (after events_started) = []" "next_timer (after events_started) = 1"
    "emitted (after events_started) = []" "isWatchHealthy (after events_started)"
    "updateTime (watchers (after events_started) ! 0) = Some 10"
    by code_simp+
  from onWatcherError_with_watcher [OF w, of "''connect ECONNREFUSED''"] w f show ?thesis by simp
qed

lemma onWatcherError_without_watcher: "watchKvChange s = None \<Longrightarrow> onWatcherError err s = None"
  by (cases "fallbackToWatchHealthyInterval s")
     (simp_all add: onWatcherError_def setFallbackToWatchHealthy_def unsetFallbackToWatchHealthy_def
        clearTimer_def emit_def Let_def)

text \<open>
  Claim C6 fails when the error handler runs without a watcher, which happens in a running
  session.  After \<open>events_stale_start\<close> the monitor is initialized and healthy, and its
  watcher carries two \<open>error\<close> listeners: the first-error callback of the \<open>start()\<close> that
  created it, still pending, and the error handler, attached when an older start was
  fulfilled.  An error of that watcher runs the first-error callback first, which ends the
  watcher and sets \<open>this._watchKvChange\<close> to \<open>null\<close>; the error handler, next, emits no
  \<open>unhealthy\<close> (the \<open>end\<close> handler has emitted it), throws in
  \<open>_setFallbackToWatchHealthy\<close> and emits no \<open>error\<close>.
\<close>

theorem onWatcherError_throws_after_first_error:
  "run json_parse_sample events_stale_start (new_monitor False 500) = Some (after events_stale_start)
   \<and> initialized (after events_stale_start)
   \<and> isWatchHealthy (after events_stale_start)
   \<and> watchKvChange (after events_stale_start) = Some 3
   \<and> error_ls (watchers (after events_stale_start) ! 3) = [FirstError 3 3, OnWatcherError]
   \<and> enabled (WatcherError 3 ''connect ECONNREFUSED'' False) (after events_stale_start)
   \<and> error_listener 3 ''connect ECONNREFUSED'' (FirstError 3 3) (after events_stale_start) =
       Some after_first_error
   \<and> watchKvChange after_first_error = None
   \<and> emitted after_first_error = emitted (after events_stale_start) @ [Unhealthy]
   \<and> error_listener 3 ''connect ECONNREFUSED'' OnWatcherError after_first_error = None
   \<and> step json_parse_sample (WatcherError 3 ''connect ECONNREFUSED'' False) (after events_stale_start) = None"
  by code_simp

text \<open>
  Claim C9.  In every reachable state an initialized monitor holds a watcher.  The
  operations that discard the watcher leave the monitor uninitialized: \<open>stop()\<close> and the
  \<open>end\<close> handler mark it so, and after the first-error callback and the deadline callback
  of a start attempt the monitor is uninitialized and holds no watcher.
\<close>

theorem initialized_has_watcher:
  "reachable parse s \<Longrightarrow>
     (initialized s \<longrightarrow> isWatcherRegistered s)
   \<and> \<not> initialized (stop s) \<and> \<not> isWatcherRegistered (stop s)
   \<and> \<not> initialized (onWatcherEnd s)
   \<and> (\<forall>w t err s'. firstError w t err s = Some s' \<longrightarrow> \<not> initialized s' \<and> \<not> isWatcherRegistered s')
   \<and> (\<forall>w t s'. initialTimeout w t s = Some s' \<longrightarrow> \<not> initialized s' \<and> \<not> isWatcherRegistered s')"
proof -
  assume r: "reachable parse s"
  then have p: "session_inv s" by (rule reachable_session_inv)
  then have i: "init_ok s" and a: "cur_alive s" by (simp_all add: session_inv_def session_ok_alive)
  have 1: "initialized s \<longrightarrow> isWatcherRegistered s"
    using i by (auto simp: init_ok_def isWatcherRegistered_def split: if_splits option.splits)
  have n: "\<not> initialized x" if "session_inv x" "watchKvChange x = None" for x
    using that by (auto simp: session_inv_def init_ok_def split: if_splits)
  have 2: "\<not> isWatcherRegistered (stop s)"
    by (simp add: stop_def Let_def isWatcherRegistered_def split: option.splits)
  then have 3: "\<not> initialized (stop s)"
    using n [OF SI_stop [OF p]] by (simp add: isWatcherRegistered_def)
  have 4: "\<not> initialized s' \<and> \<not> isWatcherRegistered s'" if f: "firstError w t err s = Some s'" for w t err s'
    using n [OF SI_firstError [OF f i a] firstError_null [OF f]] firstError_null [OF f]
    by (simp add: isWatcherRegistered_def)
  have 5: "\<not> initialized s' \<and> \<not> isWatcherRegistered s'" if f: "initialTimeout w t s = Some s'" for w t s'
  proof -
    from f have "watchKvChange s' = None"
      by (auto simp: initialTimeout_def Let_def split: option.splits)
    with n [OF SI_initialTimeout [OF f i a]] show ?thesis by (simp add: isWatcherRegistered_def)
  qed
  from 1 2 3 4 5 onWatcherEnd_facts(2) show ?thesis by blast
qed

theorem initialized_has_watcher_witness:
  "reachable json_parse_sample (after events_started) \<and> initialized (after events_started)
   \<and> isWatcherRegistered (after events_started)
   \<and> (\<exists>s'. firstError 0 0 ''connect ECONNREFUSED'' (after [UserStart]) = Some s' \<and>
             \<not> initialized s' \<and> \<not> isWatcherRegistered s')
   \<and> (\<exists>s'. initialTimeout 0 0 (after [UserStart]) = Some s' \<and>
             \<not> initialized s' \<and> \<not> isWatcherRegistered s')"
proof -
  have r: "reachable json_parse_sample (after events_started)"
    by (rule reachable_after) code_simp
  have r1: "reachable json_parse_sample (after [UserStart])"
    by (rule reachable_after) code_simp
  have i: "initialized (after events_started)" by code_simp
  have e: "firstError 0 0 ''connect ECONNREFUSED'' (after [UserStart]) \<noteq> None"
    "initialTimeout 0 0 (after [UserStart]) \<noteq> None"
    by code_simp+
  from initialized_has_watcher [OF r] initialized_has_watcher [OF r1] r i e show ?thesis
    by blast
qed

text \<open>
  Claim C1 fails while a start is pending.  \<open>stop()\<close> ends the watcher and forgets it, but
  the deadline timer of the start attempt stays armed (and the start promise pending);
  when the timer fires, its callback reads \<open>this._watchKvChange\<close>, which is \<open>null\<close>, and
  throws.
\<close>

theorem stop_mid_start_timeout_throws:
  "run json_parse_sample [UserStart, UserStop] (new_monitor False 500) = Some (after [UserStart, UserStop])
   \<and> map_of (timers (after [UserStart, UserStop])) 0 = Some (500, InitialTimeout 0)
   \<and> pending (after [UserStart, UserStop]) = [(0, ByUser)]
   \<and> enabled (TimerFires 0) (after [UserStart, UserStop])
   \<and> step json_parse_sample (TimerFires 0) (after [UserStart, UserStop]) = None"
  by code_simp


section \<open>Properties of the fallback interval and of the retry\<close>

lemma timers_grow_refl [simp]: "timers_grow s s"
  by (simp add: timers_grow_def list_all_iff)

lemma timers_grow_trans: "timers_grow s s1 \<Longrightarrow> timers_grow s1 s2 \<Longrightarrow> timers_grow s s2"
  by (fastforce simp: timers_grow_def list_all_iff)

lemma timers_grow_same:
  "timers s' = timers s \<Longrightarrow> next_timer s' = next_timer s \<Longrightarrow> timers_grow s s'"
  by (simp add: timers_grow_def list_all_iff)

lemma timers_grow_unset: "timers_grow s (unsetFallbackToWatchHealthy s)"
  by (auto simp: timers_grow_def list_all_iff unsetFallbackToWatchHealthy_def clearTimer_def
        split: option.splits)

lemma timers_grow_register: "timers_grow s (registerWatcherAndWaitForInitialKvData c s)"
  by (auto simp: timers_grow_def list_all_iff registerWatcherAndWaitForInitialKvData_def Let_def
        setTimer_def)

lemma timers_grow_start: "timers_grow s (start c s)"
  by (simp add: start_def timers_grow_register timers_grow_same)

lemma timers_grow_onWatcherEnd: "timers_grow s (onWatcherEnd s)"
proof -
  define s2 where "s2 = (let s1 = (unsetFallbackToWatchHealthy s)\<lparr>initialized := False\<rparr>;
          s2 = (if isWatchHealthy s1 then emit Unhealthy (s1\<lparr>isWatchHealthy := False\<rparr>) else s1)
      in s2\<lparr>watchKvChange := None\<rparr>)"
  have "timers s2 = timers (unsetFallbackToWatchHealthy s)"
    "next_timer s2 = next_timer (unsetFallbackToWatchHealthy s)"
    by (simp_all add: s2_def Let_def)
  then have "timers_grow (unsetFallbackToWatchHealthy s) s2" by (rule timers_grow_same)
  with timers_grow_unset have "timers_grow s s2" by (rule timers_grow_trans)
  then have "timers_grow s (start ByRetry s2)" using timers_grow_start by (rule timers_grow_trans)
  then show ?thesis by (simp add: onWatcherEnd_def retryStartService_def s2_def Let_def)
qed

lemma timers_grow_fold_end: "timers_grow s (fold end_listener ls s)"
proof (induction ls arbitrary: s)
  case Nil
  show ?case by simp
next
  case (Cons l ls)
  have "timers_grow s (end_listener l s)"
    by (simp add: end_listener_def timers_grow_onWatcherEnd)
  then show ?case using Cons.IH [of "end_listener l s"] by (auto intro: timers_grow_trans)
qed

lemma timers_grow_watcher_end: "timers_grow s (watcher_end v s)"
proof (cases "ended (watchers s ! v)")
  case True
  then show ?thesis by (simp add: watcher_end_def)
next
  case False
  have "timers_grow s (upd_watcher v (\<lambda>x. x\<lparr>ended := True\<rparr>) s)"
    by (rule timers_grow_same) simp_all
  then show ?thesis using False timers_grow_fold_end
    by (auto simp: watcher_end_def intro: timers_grow_trans)
qed

lemma timers_grow_absent:
  assumes "timers_grow s s'" "t < next_timer s" "map_of (timers s) t = None"
  shows "map_of (timers s') t = None"
proof (rule ccontr)
  assume "map_of (timers s') t \<noteq> None"
  then obtain y where "(t, y) \<in> set (timers s')" by (auto dest: map_of_SomeD)
  with assms(1) have "(t, y) \<in> set (timers s) \<or> next_timer s \<le> t"
    by (auto simp: timers_grow_def list_all_iff)
  with assms(2,3) show False by (auto simp: map_of_eq_None_iff image_iff)
qed

lemma stop_clears_retry:
  assumes r: "retryTimer s = Some t" and lt: "t < next_timer s"
  shows "map_of (timers (stop s)) t = None"
proof -
  define s1 where "s1 = (clearTimer (retryTimer s) s)\<lparr>retryTimer := None\<rparr>"
  have a1: "map_of (timers s1) t = None"
    using r by (auto simp: s1_def clearTimer_def map_of_eq_None_iff)
  have n1: "t < next_timer s1" using lt by (simp add: s1_def)
  show ?thesis
  proof (cases "watchKvChange s")
    case None
    with r a1 show ?thesis by (simp add: stop_def Let_def s1_def)
  next
    case (Some w)
    define s2 where "s2 = upd_watcher w (\<lambda>x. x\<lparr>end_ls := removeListener OnWatcherEnd (end_ls x)\<rparr>) s1"
    define s3 where "s3 = (watcher_end w s2)\<lparr>watchKvChange := None\<rparr>"
    have "timers_grow s1 s2" unfolding s2_def by (rule timers_grow_same) simp_all
    moreover have "timers_grow s2 (watcher_end w s2)" by (rule timers_grow_watcher_end)
    moreover have "timers_grow (watcher_end w s2) s3" unfolding s3_def by (rule timers_grow_same) simp_all
    moreover have "timers_grow s3 (unsetFallbackToWatchHealthy s3)" by (rule timers_grow_unset)
    ultimately have "timers_grow s1 (unsetFallbackToWatchHealthy s3)"
      by (blast intro: timers_grow_trans)
    from timers_grow_absent [OF this n1 a1]
    have "map_of (timers (unsetFallbackToWatchHealthy s3)) t = None" .
    moreover from Some r have "timers (stop s) = timers (unsetFallbackToWatchHealthy s3)"
      by (simp add: stop_def Let_def s1_def s2_def s3_def)
    ultimately show ?thesis by simp
  qed
qed

lemma fallback_timers_field:
  assumes a: "timers_inv X s"
  shows "map fst (filter is_fallback (timers s)) =
           (case fallbackToWatchHealthyInterval s of None \<Rightarrow> [] | Some t \<Rightarrow> [t])"
  using a by (simp add: timers_inv_def timers_ok_def)

lemma fallback_entry_field:
  assumes a: "timers_inv X s" and m: "map_of (timers s) t = Some (msec, FallbackTick b)"
  shows "fallbackToWatchHealthyInterval s = Some t"
proof -
  from m have "(t, msec, FallbackTick b) \<in> set (filter is_fallback (timers s))"
    by (auto dest: map_of_SomeD)
  then have "t \<in> set (map fst (filter is_fallback (timers s)))" by force
  with fallback_timers_field [OF a] show ?thesis by (auto split: option.splits)
qed

lemma unset_eq:
  "fallbackToWatchHealthyInterval s = Some t \<Longrightarrow>
     unsetFallbackToWatchHealthy s =
       s\<lparr>timers := filter (\<lambda>x. fst x \<noteq> t) (timers s), fallbackToWatchHealthyInterval := None\<rparr>"
  by (simp add: unsetFallbackToWatchHealthy_def clearTimer_def)

lemma setFallback_one:
  assumes a: "timers_inv X s" and f: "setFallbackToWatchHealthy s = Some s'"
  shows "(\<exists>w. watchKvChange s = Some w \<and>
              filter is_fallback (timers s') =
                [(next_timer s, 1000, FallbackTick (updateTime (watchers s ! w)))]) \<and>
         fallbackToWatchHealthyInterval s' = Some (next_timer s)"
proof -
  define s1 where "s1 = (if fallbackToWatchHealthyInterval s \<noteq> None then unsetFallbackToWatchHealthy s else s)"
  have 1: "timers_inv X s1" using a by (simp add: s1_def TO_unsetFallback)
  have n: "fallbackToWatchHealthyInterval s1 = None"
    by (simp add: s1_def unsetFallbackToWatchHealthy_def)
  have nt: "next_timer s1 = next_timer s" "watchers s1 = watchers s" "watchKvChange s1 = watchKvChange s"
    by (simp_all add: s1_def)
  from fallback_timers_field [OF 1] n have e: "filter is_fallback (timers s1) = []" by simp
  from f obtain w where w: "watchKvChange s1 = Some w" and
    s': "s' = (setTimer HEALTH_FALLBACK_INTERVAL_MSEC (FallbackTick (updateTime (watchers s1 ! w))) s1)
                   \<lparr>fallbackToWatchHealthyInterval := Some (next_timer s1)\<rparr>"
    by (auto simp: setFallbackToWatchHealthy_def Let_def s1_def split: option.splits if_splits)
  from w nt have w': "watchKvChange s = Some w" by simp
  have "filter is_fallback (timers s') =
          [(next_timer s, 1000, FallbackTick (updateTime (watchers s ! w)))]"
    using e nt by (simp add: s' setTimer_def HEALTH_FALLBACK_INTERVAL_MSEC_def)
  moreover have "fallbackToWatchHealthyInterval s' = Some (next_timer s)"
    using nt by (simp add: s')
  ultimately show ?thesis using w' by blast
qed

text \<open>
  Claim C3.  In every reachable state at most one fallback interval is active, and it is
  the one the monitor holds; \<open>_setFallbackToWatchHealthy\<close> leaves exactly the new one
  active, with the watcher's update time as its baseline.  When the interval fires on a healthy monitor, it is cancelled and nothing else
  changes.  When it fires on an unhealthy monitor whose watcher's update time differs
  from the baseline, it is cancelled, the monitor becomes healthy and the only
  notification emitted is \<open>healthy\<close>; when the update time is the baseline, nothing
  changes.
\<close>

theorem fallback_timer_spec:
  "reachable parse s \<Longrightarrow>
     length (filter is_fallback (timers s)) \<le> 1
   \<and> (\<forall>s'. setFallbackToWatchHealthy s = Some s' \<longrightarrow>
          (\<exists>w. watchKvChange s = Some w \<and>
               filter is_fallback (timers s') =
                 [(next_timer s, 1000, FallbackTick (updateTime (watchers s ! w)))]) \<and>
          fallbackToWatchHealthyInterval s' = Some (next_timer s))
   \<and> (\<forall>t msec b. map_of (timers s) t = Some (msec, FallbackTick b) \<longrightarrow>
          fallbackToWatchHealthyInterval s = Some t
        \<and> (isWatchHealthy s \<longrightarrow>
             step parse (TimerFires t) s =
               Some (s\<lparr>timers := filter (\<lambda>x. fst x \<noteq> t) (timers s),
                       fallbackToWatchHealthyInterval := None\<rparr>))
        \<and> (\<forall>w. \<not> isWatchHealthy s \<and> watchKvChange s = Some w \<and> b \<noteq> updateTime (watchers s ! w) \<longrightarrow>
             step parse (TimerFires t) s =
               Some (s\<lparr>timers := filter (\<lambda>x. fst x \<noteq> t) (timers s),
                       fallbackToWatchHealthyInterval := None,
                       isWatchHealthy := True,
                       emitted := emitted s @ [Healthy]\<rparr>))
        \<and> (\<forall>w. \<not> isWatchHealthy s \<and> watchKvChange s = Some w \<and> b = updateTime (watchers s ! w) \<longrightarrow>
             step parse (TimerFires t) s = Some s))"
proof -
  assume r: "reachable parse s"
  then have a: "timers_inv {} s" by (rule reachable_timers_inv)
  from r have j: "jobs s = []" by (rule reachable_jobs)
  have 1: "length (filter is_fallback (timers s)) \<le> 1"
    using arg_cong [OF fallback_timers_field [OF a], of length] by (simp split: option.splits)
  have 2: "(\<exists>w. watchKvChange s = Some w \<and>
               filter is_fallback (timers s') =
                 [(next_timer s, 1000, FallbackTick (updateTime (watchers s ! w)))]) \<and>
          fallbackToWatchHealthyInterval s' = Some (next_timer s)"
    if "setFallbackToWatchHealthy s = Some s'" for s'
    using a that by (rule setFallback_one)
  have 3: "fallbackToWatchHealthyInterval s = Some t
        \<and> (isWatchHealthy s \<longrightarrow>
             step parse (TimerFires t) s =
               Some (s\<lparr>timers := filter (\<lambda>x. fst x \<noteq> t) (timers s),
                       fallbackToWatchHealthyInterval := None\<rparr>))
        \<and> (\<forall>w. \<not> isWatchHealthy s \<and> watchKvChange s = Some w \<and> b \<noteq> updateTime (watchers s ! w) \<longrightarrow>
             step parse (TimerFires t) s =
               Some (s\<lparr>timers := filter (\<lambda>x. fst x \<noteq> t) (timers s),
                       fallbackToWatchHealthyInterval := None,
                       isWatchHealthy := True,
                       emitted := emitted s @ [Healthy]\<rparr>))
        \<and> (\<forall>w. \<not> isWatchHealthy s \<and> watchKvChange s = Some w \<and> b = updateTime (watchers s ! w) \<longrightarrow>
             step parse (TimerFires t) s = Some s)"
    if m: "map_of (timers s) t = Some (msec, FallbackTick b)" for t msec b
  proof -
    from a m have f: "fallbackToWatchHealthyInterval s = Some t" by (rule fallback_entry_field)
    have h: "timer_fires t s = fallback_tick b s"
      using m by (simp add: timer_fires_def)
    have u: "unsetFallbackToWatchHealthy s =
       s\<lparr>timers := filter (\<lambda>x. fst x \<noteq> t) (timers s), fallbackToWatchHealthyInterval := None\<rparr>"
      using f by (rule unset_eq)
    have st: "step parse (TimerFires t) s = Some x" if "fallback_tick b s = Some x" "jobs x = []" for x
      using that by (simp add: step_def h drain_id)
    have c1: "step parse (TimerFires t) s =
               Some (s\<lparr>timers := filter (\<lambda>x. fst x \<noteq> t) (timers s),
                       fallbackToWatchHealthyInterval := None\<rparr>)" if "isWatchHealthy s"
      by (rule st) (use that j in \<open>simp_all add: fallback_tick_def u\<close>)
    have c2: "step parse (TimerFires t) s =
               Some (s\<lparr>timers := filter (\<lambda>x. fst x \<noteq> t) (timers s),
                       fallbackToWatchHealthyInterval := None,
                       isWatchHealthy := True,
                       emitted := emitted s @ [Healthy]\<rparr>)"
      if "\<not> isWatchHealthy s" "watchKvChange s = Some w" "b \<noteq> updateTime (watchers s ! w)" for w
      by (rule st) (use that j in \<open>simp_all add: fallback_tick_def u emit_def\<close>)
    have c3: "step parse (TimerFires t) s = Some s"
      if "\<not> isWatchHealthy s" "watchKvChange s = Some w" "b = updateTime (watchers s ! w)" for w
      by (rule st) (use that j in \<open>simp_all add: fallback_tick_def\<close>)
    from f c1 c2 c3 show ?thesis by blast
  qed
  from 1 2 3 show ?thesis by blast
qed

theorem fallback_timer_spec_witness:
  "reachable json_parse_sample (after events_silent_update)
   \<and> map_of (timers (after events_silent_update)) 1 = Some (1000, FallbackTick (Some 10))
   \<and> \<not> isWatchHealthy (after events_silent_update)
   \<and> watchKvChange (after events_silent_update) = Some 0
   \<and> Some 10 \<noteq> updateTime (watchers (after events_silent_update) ! 0)
   \<and> step json_parse_sample (TimerFires 1) (after events_silent_update) =
        Some ((after events_silent_update)
               \<lparr>timers := filter (\<lambda>x. fst x \<noteq> 1) (timers (after events_silent_update)),
                 fallbackToWatchHealthyInterval := None,
                 isWatchHealthy := True,
                 emitted := emitted (after events_silent_update) @ [Healthy]\<rparr>)
   \<and> setFallbackToWatchHealthy (after events_silent_update) \<noteq> None
   \<and> reachable json_parse_sample (after events_recovered)
   \<and> map_of (timers (after events_recovered)) 1 = Some (1000, FallbackTick (Some 10))
   \<and> isWatchHealthy (after events_recovered)
   \<and> step json_parse_sample (TimerFires 1) (after events_recovered) =
        Some ((after events_recovered)
               \<lparr>timers := filter (\<lambda>x. fst x \<noteq> 1) (timers (after events_recovered)),
                 fallbackToWatchHealthyInterval := None\<rparr>)"
proof -
  have r1: "reachable json_parse_sample (after events_silent_update)"
    by (rule reachable_after) code_simp
  have r2: "reachable json_parse_sample (after events_recovered)"
    by (rule reachable_after) code_simp
  have f1: "map_of (timers (after events_silent_update)) 1 = Some (1000, FallbackTick (Some 10))"
    "\<not> isWatchHealthy (after events_silent_update)"
    "watchKvChange (after events_silent_update) = Some 0"
    "Some 10 \<noteq> updateTime (watchers (after events_silent_update) ! 0)"
    "setFallbackToWatchHealthy (after events_silent_update) \<noteq> None"
    by code_simp+
  have f2: "map_of (timers (after events_recovered)) 1 = Some (1000, FallbackTick (Some 10))"
    "isWatchHealthy (after events_recovered)"
    by code_simp+
  from fallback_timer_spec [OF r1] fallback_timer_spec [OF r2] r1 r2 f1 f2
  show ?thesis by blast
qed

lemma retry_handle_safe:
  assumes a: "timers_inv X s" and r: "retryTimer s = Some t"
  shows "t < next_timer s"
proof -
  from r have "t \<in> closure_tids s" by (simp add: closure_tids_def)
  with a show ?thesis by (simp add: timers_inv_def tids_ok_def tid_safe_def)
qed

lemma retryTimer_start: "retryTimer (start c s) = retryTimer s"
  by (simp add: start_def registerWatcherAndWaitForInitialKvData_def Let_def)

lemma retryTimer_onWatcherEnd: "retryTimer (onWatcherEnd s) = retryTimer s"
  by (simp add: onWatcherEnd_def Let_def retryStartService_def retryTimer_start)

lemma retryTimer_fold_end: "retryTimer (fold end_listener ls s) = retryTimer s"
  by (induction ls arbitrary: s) (simp_all add: end_listener_def retryTimer_onWatcherEnd)

lemma retryTimer_watcher_end: "retryTimer (watcher_end v s) = retryTimer s"
  by (simp add: watcher_end_def retryTimer_fold_end)

text \<open>
  The retry procedure.  A rejection of the promise of \<open>start()\<close> reaches the code that
  waits for it in \<open>_retryStartService\<close>, whatever the error.  There the error is queued
  with \<open>setImmediate\<close>, whose callback emits it as one \<open>error\<close> notification, and a timer
  of 1000 ms is set and kept in \<open>_retryTimer\<close>; when that timer fires,
  \<open>_retryStartService\<close> calls \<open>start()\<close> again, so a run of failures reschedules without
  end.  After a fulfilment the snapshot becomes the current data and \<open>healthy\<close>, then
  \<open>changed\<close> are emitted.  In a reachable state \<open>stop()\<close> removes the timer kept in
  \<open>_retryTimer\<close>, which then cannot fire.
\<close>

lemma retry_procedure:
  "reachable parse s \<Longrightarrow>
     run_job (StartSettled ByRetry (Inl err)) s = s\<lparr>jobs := jobs s @ [AwaitStart ByRetry (Inl err)]\<rparr>
   \<and> run_job (AwaitStart ByRetry (Inl err)) s =
       s\<lparr>immediates := immediates s @ [[err]],
         timers := timers s @ [(next_timer s, 1000, RetryStartService)],
         next_timer := Suc (next_timer s),
         retryTimer := Some (next_timer s)\<rparr>
   \<and> (\<forall>u rest. immediates u = [err] # rest \<longrightarrow>
          run_immediate u = u\<lparr>immediates := rest, emitted := emitted u @ [Error err]\<rparr>)
   \<and> (\<forall>t msec. map_of (timers s) t = Some (msec, RetryStartService) \<longrightarrow>
          handle parse (TimerFires t) s =
            Some (start ByRetry (s\<lparr>timers := filter (\<lambda>x. fst x \<noteq> t) (timers s)\<rparr>)))
   \<and> run_job (AwaitStart ByRetry (Inr kv)) s =
       s\<lparr>consulKvData := kv, emitted := emitted s @ [Healthy, Changed kv]\<rparr>
   \<and> (\<forall>t. retryTimer s = Some t \<longrightarrow>
          retryTimer (stop s) = None \<and> \<not> enabled (TimerFires t) (stop s))"
proof -
  assume r: "reachable parse s"
  then have a: "timers_inv {} s" by (rule reachable_timers_inv)
  have 1: "run_job (AwaitStart ByRetry (Inl err)) s =
       s\<lparr>immediates := immediates s @ [[err]],
         timers := timers s @ [(next_timer s, 1000, RetryStartService)],
         next_timer := Suc (next_timer s),
         retryTimer := Some (next_timer s)\<rparr>"
    by (simp add: setImmediate_def setTimer_def DEFAULT_RETRY_START_SERVICE_TIMEOUT_MSEC_def)
  have 2: "run_immediate u = u\<lparr>immediates := rest, emitted := emitted u @ [Error err]\<rparr>"
    if "immediates u = [err] # rest" for u rest
    using run_immediate_eq [OF that] by simp
  have 3: "handle parse (TimerFires t) s =
            Some (start ByRetry (s\<lparr>timers := filter (\<lambda>x. fst x \<noteq> t) (timers s)\<rparr>))"
    if "map_of (timers s) t = Some (msec, RetryStartService)" for t msec
    using that by (simp add: timer_fires_def retryStartService_def clearTimer_def)
  have 4: "run_job (AwaitStart ByRetry (Inr kv)) s =
       s\<lparr>consulKvData := kv, emitted := emitted s @ [Healthy, Changed kv]\<rparr>"
    by (simp add: emit_def)
  have 5: "retryTimer (stop s) = None \<and> \<not> enabled (TimerFires t) (stop s)"
    if t: "retryTimer s = Some t" for t
  proof -
    from a t have "t < next_timer s" by (rule retry_handle_safe)
    with t have "map_of (timers (stop s)) t = None" by (rule stop_clears_retry)
    moreover have "retryTimer (watcher_end v x) = retryTimer x" for v x
      by (rule retryTimer_watcher_end)
    then have "retryTimer (stop s) = None"
      using t by (simp add: stop_def Let_def split: option.splits)
    ultimately show ?thesis by simp
  qed
  from 1 2 3 4 5 show ?thesis by simp
qed


lemma retry_procedure_example:
  "reachable json_parse_sample (after events_retry_failed)
   \<and> emitted (after events_retry_failed) =
       [Error (record_diagnostic (JNum 7)), Unhealthy,
        Error (KvError WatchError ''Bad request'' (ExErr ''Bad request''))]
   \<and> immediates (after events_retry_failed) =
       [KvError WatchTimeoutError ''Initial consul watch request was timed out'' NoExtra] # []
   \<and> emitted (run_immediate (after events_retry_failed)) =
       emitted (after events_retry_failed) @
       [Error (KvError WatchTimeoutError ''Initial consul watch request was timed out'' NoExtra)]
   \<and> map_of (timers (after events_retry_failed)) 3 = Some (1000, RetryStartService)
   \<and> handle json_parse_sample (TimerFires 3) (after events_retry_failed) =
       Some (start ByRetry ((after events_retry_failed)
               \<lparr>timers := filter (\<lambda>x. fst x \<noteq> 3) (timers (after events_retry_failed))\<rparr>))
   \<and> retryTimer (after events_retry_failed) = Some 3
   \<and> \<not> enabled (TimerFires 3) (stop (after events_retry_failed))"
proof -
  have r: "reachable json_parse_sample (after events_retry_failed)"
    by (rule reachable_after) code_simp
  have f: "emitted (after events_retry_failed) =
       [Error (record_diagnostic (JNum 7)), Unhealthy,
        Error (KvError WatchError ''Bad request'' (ExErr ''Bad request''))]"
    "immediates (after events_retry_failed) =
       [KvError WatchTimeoutError ''Initial consul watch request was timed out'' NoExtra] # []"
    "map_of (timers (after events_retry_failed)) 3 = Some (1000, RetryStartService)"
    "retryTimer (after events_retry_failed) = Some 3"
    by code_simp+
  from retry_procedure [OF r, of "KvError WatchTimeoutError ''Initial consul watch request was timed out'' NoExtra"]
    r f
  show ?thesis by simp
qed

text \<open>
  Claim C4 fails in its last part when two retry timers are pending.  \<open>_retryTimer\<close> holds
  one handle.  After the run \<open>events_two_retries\<close> the timer of the first retry loop (3)
  and the timer of the second (7) are both set, and \<open>_retryTimer\<close> holds the second.
  \<open>stop()\<close> clears that one only; the other fires afterwards and \<open>_retryStartService\<close>
  registers a new watcher.
\<close>

theorem stop_leaves_older_retry_timer:
  "run json_parse_sample (events_two_retries @ [UserStop]) (new_monitor False 500) =
     Some (after (events_two_retries @ [UserStop]))
   \<and> timers (after events_two_retries) = [(3, 1000, RetryStartService), (7, 1000, RetryStartService)]
   \<and> retryTimer (after events_two_retries) = Some 7
   \<and> timers (after (events_two_retries @ [UserStop])) = [(3, 1000, RetryStartService)]
   \<and> \<not> isWatcherRegistered (after (events_two_retries @ [UserStop]))
   \<and> enabled (TimerFires 3) (after (events_two_retries @ [UserStop]))
   \<and> map_option watchKvChange
        (step json_parse_sample (TimerFires 3) (after (events_two_retries @ [UserStop]))) = Some (Some 4)"
  by code_simp

end
